theory Spec2Isabelle
  imports Main "HOL-Library.Multiset"
begin

section \<open>Task model\<close>

text \<open>
  \<^verbatim>\<open>Task.timestamp\<close> is a naive \<^verbatim>\<open>datetime\<close>: seven numeric fields, compared
  field by field from the year down.
\<close>

record datetime =
  year :: nat
  month :: nat
  day :: nat
  hour :: nat
  minute :: nat
  second :: nat
  microsecond :: nat

record task =
  content :: string
  timestamp :: datetime
  is_completed :: bool

definition dt_key :: "datetime \<Rightarrow> nat list" where
  "dt_key t = [year t, month t, day t, hour t, minute t, second t, microsecond t]"

fun lex_less :: "nat list \<Rightarrow> nat list \<Rightarrow> bool" where
  "lex_less (x # xs) (y # ys) = (x < y \<or> (x = y \<and> lex_less xs ys))"
| "lex_less _ _ = False"

definition dt_less :: "datetime \<Rightarrow> datetime \<Rightarrow> bool" where
  "dt_less a b = lex_less (dt_key a) (dt_key b)"

text \<open>Python's \<^verbatim>\<open>min(a, b)\<close> returns \<^verbatim>\<open>b\<close> only when \<^verbatim>\<open>b < a\<close>.\<close>

definition dt_min :: "datetime \<Rightarrow> datetime \<Rightarrow> datetime" where
  "dt_min a b = (if dt_less b a then b else a)"

text \<open>The constructor \<^verbatim>\<open>datetime(y, m, d, h, mi)\<close>: seconds and microseconds are zero.\<close>

definition mk_datetime :: "nat \<Rightarrow> nat \<Rightarrow> nat \<Rightarrow> nat \<Rightarrow> nat \<Rightarrow> datetime" where
  "mk_datetime y m d h mi =
     \<lparr>year = y, month = m, day = d, hour = h, minute = mi, second = 0, microsecond = 0\<rparr>"

section \<open>TaskSynchronizer.synchronize\<close>

text \<open>
  The dict comprehension \<^verbatim>\<open>{task.content: task for task in tasks}\<close> stores the tasks
  one by one under their content, a later task replacing an earlier one of the same content.
\<close>

definition by_content :: "task list \<Rightarrow> (string \<rightharpoonup> task)" where
  "by_content tasks = foldl (\<lambda>m t. m(content t \<mapsto> t)) Map.empty tasks"

text \<open>
  \<^verbatim>\<open>all_contents\<close> is a Python set of strings, and the loop \<^verbatim>\<open>for content in all_contents\<close>
  visits it in an order the language leaves open. The order is therefore an argument of the
  model: a list \<open>keys\<close> that enumerates the set, each element once.
\<close>

definition all_contents :: "task list \<Rightarrow> task list \<Rightarrow> string set" where
  "all_contents beorg_tasks journelly_tasks =
     dom (by_content beorg_tasks) \<union> dom (by_content journelly_tasks)"

definition iteration_order :: "string list \<Rightarrow> task list \<Rightarrow> task list \<Rightarrow> bool" where
  "iteration_order keys beorg_tasks journelly_tasks \<longleftrightarrow>
     distinct keys \<and> set keys = all_contents beorg_tasks journelly_tasks"

text \<open>
  One pass of the loop body. The state is the pair
  \<^verbatim>\<open>(final_beorg_tasks, final_journelly_tasks)\<close>. A \<^verbatim>\<open>Task\<close> is a non-empty tuple and
  so always true in a condition: \<^verbatim>\<open>if beorg_task and journelly_task\<close> asks whether both
  lookups found something.
\<close>

definition sync_step ::
  "(string \<rightharpoonup> task) \<Rightarrow> (string \<rightharpoonup> task) \<Rightarrow> task list \<times> task list \<Rightarrow> string
     \<Rightarrow> task list \<times> task list" where
  "sync_step beorg_by_content journelly_by_content finals c =
     (case (beorg_by_content c, journelly_by_content c) of
        (Some beorg_task, Some journelly_task) \<Rightarrow>
          (let earlier_timestamp = dt_min (timestamp beorg_task) (timestamp journelly_task);
               completed = (is_completed beorg_task \<or> is_completed journelly_task);
               merged_task = \<lparr>content = c, timestamp = earlier_timestamp,
                              is_completed = completed\<rparr>
           in if completed then finals
              else (fst finals @ [merged_task], snd finals @ [merged_task]))
      | (Some beorg_task, None) \<Rightarrow>
          (if is_completed beorg_task then finals
           else (fst finals @ [beorg_task], snd finals @ [beorg_task]))
      | (None, Some journelly_task) \<Rightarrow>
          (if is_completed journelly_task then finals
           else (fst finals @ [journelly_task], snd finals @ [journelly_task]))
      | (None, None) \<Rightarrow> finals)"

definition synchronize :: "string list \<Rightarrow> task list \<Rightarrow> task list \<Rightarrow> task list \<times> task list" where
  "synchronize keys beorg_tasks journelly_tasks =
     foldl (sync_step (by_content beorg_tasks) (by_content journelly_tasks)) ([], []) keys"

text \<open>What one key contributes to each result list (used in the proofs only).\<close>

definition emitted :: "(string \<rightharpoonup> task) \<Rightarrow> (string \<rightharpoonup> task) \<Rightarrow> string \<Rightarrow> task list" where
  "emitted bm jm c = fst (sync_step bm jm ([], []) c)"

section \<open>Text: characters, lines and patterns\<close>

text \<open>
  A text is a list of characters; a \<open>char\<close> stands for the Unicode code point of the same
  number, so the model covers the texts whose code points are below 256. The three classes
  are Python's on these code points: \<^verbatim>\<open>str.isspace\<close> (what \<^verbatim>\<open>strip()\<close> removes), and
  the regular-expression classes \<^verbatim>\<open>\d\<close> and \<^verbatim>\<open>\w\<close> of a \<^verbatim>\<open>str\<close> pattern.
\<close>

definition code :: "char \<Rightarrow> nat" where
  "code c = of_char c"

definition is_space :: "char \<Rightarrow> bool" where
  "is_space c \<longleftrightarrow> code c \<in> {9, 10, 11, 12, 13, 28, 29, 30, 31, 32, 133, 160}"

definition is_digit :: "char \<Rightarrow> bool" where
  "is_digit c \<longleftrightarrow> c \<in> set ''0123456789''"

definition is_word :: "char \<Rightarrow> bool" where
  "is_word c \<longleftrightarrow>
     is_digit c \<or> (65 \<le> code c \<and> code c \<le> 90) \<or> code c = 95
     \<or> (97 \<le> code c \<and> code c \<le> 122)
     \<or> code c \<in> {170, 178, 179, 181, 185, 186, 188, 189, 190}
     \<or> (192 \<le> code c \<and> code c \<noteq> 215 \<and> code c \<noteq> 247)"

definition newline :: char where
  "newline = CHR 0x0A"

text \<open>\<^verbatim>\<open>s.strip()\<close>\<close>

definition strip :: "string \<Rightarrow> string" where
  "strip s = rev (dropWhile is_space (rev (dropWhile is_space s)))"

text \<open>\<^verbatim>\<open>s.split('\n')\<close>: the empty text has one, empty, line.\<close>

fun split_nl :: "string \<Rightarrow> string list" where
  "split_nl [] = [[]]"
| "split_nl (c # cs) =
     (if c = newline then [] # split_nl cs
      else (case split_nl cs of l # ls \<Rightarrow> (c # l) # ls | [] \<Rightarrow> [[c]]))"

text \<open>\<^verbatim>\<open>'\n'.join(lines)\<close>\<close>

fun join_nl :: "string list \<Rightarrow> string" where
  "join_nl [] = []"
| "join_nl [l] = l"
| "join_nl (l # ls) = l @ newline # join_nl ls"

definition startswith :: "string \<Rightarrow> string \<Rightarrow> bool" where
  "startswith s p \<longleftrightarrow> take (length p) s = p"

text \<open>
  The two regular expressions are sequences of single-character items (a literal, \<^verbatim>\<open>\d\<close>
  or \<^verbatim>\<open>\w\<close>), and \<^verbatim>\<open>re.match\<close> anchors them at the start of the line only: it succeeds
  when the line begins with characters that fit the items one by one.
\<close>

datatype pat = Lit char | Digit | Word

fun pat_ok :: "pat \<Rightarrow> char \<Rightarrow> bool" where
  "pat_ok (Lit l) c = (c = l)"
| "pat_ok Digit c = is_digit c"
| "pat_ok Word c = is_word c"

fun re_match :: "pat list \<Rightarrow> string \<Rightarrow> bool" where
  "re_match [] s = True"
| "re_match (p # ps) [] = False"
| "re_match (p # ps) (c # cs) = (pat_ok p c \<and> re_match ps cs)"

definition lits :: "string \<Rightarrow> pat list" where
  "lits s = map Lit s"

text \<open>The group \<^verbatim>\<open>(\d{4}-\d{2}-\d{2} \w{3} \d{2}:\d{2})\<close>, 20 characters.\<close>

definition timestamp_group :: "pat list" where
  "timestamp_group =
     [Digit, Digit, Digit, Digit, Lit CHR ''-'', Digit, Digit, Lit CHR ''-'', Digit, Digit,
      Lit CHR '' '', Word, Word, Word, Lit CHR '' '', Digit, Digit, Lit CHR '':'',
      Digit, Digit]"

text \<open>\<^verbatim>\<open>r'\[(\d{4}-\d{2}-\d{2} \w{3} \d{2}:\d{2})\]'\<close>\<close>

definition beorg_pattern :: "pat list" where
  "beorg_pattern = lits ''['' @ timestamp_group @ lits '']''"

text \<open>\<^verbatim>\<open>r'\* \[(\d{4}-\d{2}-\d{2} \w{3} \d{2}:\d{2})\] @ -'\<close>\<close>

definition journelly_pattern :: "pat list" where
  "journelly_pattern = lits ''* ['' @ timestamp_group @ lits ''] @ -''"

section \<open>Timestamps as text\<close>

definition is_leap :: "nat \<Rightarrow> bool" where
  "is_leap y \<longleftrightarrow> y mod 4 = 0 \<and> (y mod 100 \<noteq> 0 \<or> y mod 400 = 0)"

definition days_in_month :: "nat \<Rightarrow> nat \<Rightarrow> nat" where
  "days_in_month y m =
     (if m = 2 \<and> is_leap y then 29
      else [31, 28, 31, 30, 31, 30, 31, 31, 30, 31, 30, 31] ! (m - 1))"

text \<open>What the constructor of \<^verbatim>\<open>datetime\<close> accepts.\<close>

definition valid_datetime :: "datetime \<Rightarrow> bool" where
  "valid_datetime t \<longleftrightarrow>
     1 \<le> year t \<and> year t \<le> 9999 \<and> 1 \<le> month t \<and> month t \<le> 12
     \<and> 1 \<le> day t \<and> day t \<le> days_in_month (year t) (month t)
     \<and> hour t \<le> 23 \<and> minute t \<le> 59 \<and> second t \<le> 59 \<and> microsecond t \<le> 999999"

definition digit_val :: "char \<Rightarrow> nat" where
  "digit_val c = code c - 48"

definition int_of_digits :: "string \<Rightarrow> nat" where
  "int_of_digits s = foldl (\<lambda>n c. 10 * n + digit_val c) 0 s"

definition lower :: "char \<Rightarrow> char" where
  "lower c =
     (case map_of (zip ''ABCDEFGHIJKLMNOPQRSTUVWXYZ'' ''abcdefghijklmnopqrstuvwxyz'') c of
        Some l \<Rightarrow> l
      | None \<Rightarrow> c)"

definition is_weekday_name :: "string \<Rightarrow> bool" where
  "is_weekday_name a \<longleftrightarrow>
     map lower a \<in> set [''mon'', ''tue'', ''wed'', ''thu'', ''fri'', ''sat'', ''sun'']"

text \<open>
  \<^verbatim>\<open>datetime.strptime(timestamp_str, '%Y-%m-%d %a %H:%M')\<close> on the strings the parsers
  pass to it, which have matched \<open>timestamp_group\<close>; \<open>None\<close> is its \<^verbatim>\<open>ValueError\<close>.
  The library wants a month from 01 to 12, a day from 01 to 31, an abbreviated weekday
  name (those of the C and English locales) in any letter case, an hour up to 23 and a
  minute up to 59, and then builds the date
  from year, month and day, which fails for the year 0 and for a day the month does not
  have. The weekday name takes no part in the value.
\<close>

definition strptime :: "string \<Rightarrow> datetime option" where
  "strptime s =
     (let y = int_of_digits (take 4 s);
          m = int_of_digits (take 2 (drop 5 s));
          d = int_of_digits (take 2 (drop 8 s));
          a = take 3 (drop 11 s);
          H = int_of_digits (take 2 (drop 15 s));
          M = int_of_digits (take 2 (drop 18 s))
      in if re_match timestamp_group s \<and> length s = 20
            \<and> 1 \<le> m \<and> m \<le> 12 \<and> 1 \<le> d \<and> d \<le> 31 \<and> is_weekday_name a
            \<and> H \<le> 23 \<and> M \<le> 59 \<and> 1 \<le> y \<and> d \<le> days_in_month y m
         then Some (mk_datetime y m d H M)
         else None)"

text \<open>
  \<^verbatim>\<open>strftime('%Y-%m-%d %a %H:%M')\<close>. \<^verbatim>\<open>%m\<close>, \<^verbatim>\<open>%d\<close>, \<^verbatim>\<open>%H\<close> and \<^verbatim>\<open>%M\<close> are
  decimal numbers padded with zeros to two digits; \<^verbatim>\<open>%Y\<close> is the year as the C library
  prints it, a decimal number without padding (so four digits from the year 1000 on);
  \<^verbatim>\<open>%a\<close> is the abbreviated name of \<^verbatim>\<open>weekday()\<close>, which is
  \<^verbatim>\<open>(toordinal() + 6) % 7\<close> with Monday as 0.
\<close>

definition digit_char :: "nat \<Rightarrow> char" where
  "digit_char n = ''0123456789'' ! n"

fun decimal :: "nat \<Rightarrow> string" where
  "decimal n = (if n < 10 then [digit_char n] else decimal (n div 10) @ [digit_char (n mod 10)])"

declare decimal.simps [simp del]

definition pad2 :: "nat \<Rightarrow> string" where
  "pad2 n = replicate (2 - length (decimal n)) CHR ''0'' @ decimal n"

definition days_before_year :: "nat \<Rightarrow> nat" where
  "days_before_year y = (y - 1) * 365 + (y - 1) div 4 + (y - 1) div 400 - (y - 1) div 100"

definition days_before_month :: "nat \<Rightarrow> nat \<Rightarrow> nat" where
  "days_before_month y m = sum_list (map (days_in_month y) [1..<m])"

definition toordinal :: "datetime \<Rightarrow> nat" where
  "toordinal t = days_before_year (year t) + days_before_month (year t) (month t) + day t"

definition weekday :: "datetime \<Rightarrow> nat" where
  "weekday t = (toordinal t + 6) mod 7"

definition day_abbr :: "nat \<Rightarrow> string" where
  "day_abbr n = [''Mon'', ''Tue'', ''Wed'', ''Thu'', ''Fri'', ''Sat'', ''Sun''] ! n"

definition strftime :: "datetime \<Rightarrow> string" where
  "strftime t =
     decimal (year t) @ ''-'' @ pad2 (month t) @ ''-'' @ pad2 (day t) @ '' ''
     @ day_abbr (weekday t) @ '' '' @ pad2 (hour t) @ '':'' @ pad2 (minute t)"

section \<open>BeOrgParser\<close>

text \<open>
  The parsers return, with each result, the warnings they append to \<^verbatim>\<open>self.warnings\<close>.
  The verbose trace is console output and is left out.
\<close>

definition quoted :: "string \<Rightarrow> string" where
  "quoted s = [CHR 0x27] @ s @ [CHR 0x27]"

text \<open>\<^verbatim>\<open>_parse_beorg_timestamp_and_create_task\<close>: the task, the extra lines consumed, the warnings.\<close>

definition parse_beorg_timestamp_and_create_task ::
  "string \<Rightarrow> bool \<Rightarrow> string list \<Rightarrow> nat \<Rightarrow> string \<Rightarrow> task option \<times> nat \<times> string list" where
  "parse_beorg_timestamp_and_create_task task_content completed lines i header_line =
     (if i + 1 < length lines then
        (let next_line = strip (lines ! (i + 1)) in
         if re_match beorg_pattern next_line then
           (let timestamp_str = take 20 (drop 1 next_line) in
            case strptime timestamp_str of
              Some ts \<Rightarrow>
                (Some \<lparr>content = task_content, timestamp = ts, is_completed = completed\<rparr>,
                 1, [])
            | None \<Rightarrow>
                (None, 0,
                 [''Skipping entry in BeOrg file due to invalid timestamp: ''
                    @ quoted timestamp_str]))
         else
           (None, 0,
            [''Skipping malformed BeOrg task (timestamp missing or wrong format): ''
               @ quoted header_line]))
      else
        (None, 0,
         [''Skipping BeOrg task at end of file (timestamp missing): '' @ quoted header_line]))"

text \<open>\<^verbatim>\<open>_parse_task_from_line\<close>\<close>

definition parse_task_from_line ::
  "string \<Rightarrow> string list \<Rightarrow> nat \<Rightarrow> task option \<times> nat \<times> string list" where
  "parse_task_from_line line lines i =
     (if \<not> (startswith line ''* TODO '' \<or> startswith line ''* DONE '') then (None, 0, [])
      else parse_beorg_timestamp_and_create_task
             (drop 7 line) (startswith line ''* DONE '') lines i line)"

text \<open>
  The \<^verbatim>\<open>while i < len(lines)\<close> loop of \<^verbatim>\<open>_parse_tasks\<close>, from index \<open>i\<close> on: the tasks
  it appends, in order, and the warnings.
\<close>

function beorg_loop :: "string list \<Rightarrow> nat \<Rightarrow> task list \<times> string list" where
  "beorg_loop lines i =
     (if i < length lines then
        (let line = strip (lines ! i);
             r = parse_task_from_line line lines i;
             rest = beorg_loop lines (i + 1 + fst (snd r))
         in ((case fst r of Some task \<Rightarrow> [task] | None \<Rightarrow> []) @ fst rest,
             snd (snd r) @ snd rest))
      else ([], []))"
  by pat_completeness auto
termination
  by (relation "measure (\<lambda>(lines, i). length lines - i)") auto

declare beorg_loop.simps [simp del]

definition beorg_parse_tasks :: "string \<Rightarrow> task list \<times> string list" where
  "beorg_parse_tasks text = beorg_loop (split_nl (strip text)) 0"

definition beorg_format_task :: "task \<Rightarrow> string list" where
  "beorg_format_task t =
     [''* '' @ (if is_completed t then ''DONE'' else ''TODO'') @ '' '' @ content t,
      ''['' @ strftime (timestamp t) @ '']'']"

definition beorg_format_tasks :: "task list \<Rightarrow> string list" where
  "beorg_format_tasks tasks = concat (map beorg_format_task tasks)"

section \<open>JournellyParser\<close>

text \<open>\<^verbatim>\<open>_parse_journelly_task_from_line\<close>\<close>

definition parse_journelly_task_from_line ::
  "string \<Rightarrow> string list \<Rightarrow> nat \<Rightarrow> task option \<times> nat \<times> string list" where
  "parse_journelly_task_from_line line lines i =
     (if \<not> re_match journelly_pattern line then (None, 0, [])
      else
        (let timestamp_str = take 20 (drop 3 line) in
         case strptime timestamp_str of
           None \<Rightarrow>
             (None, 0,
              [''Skipping entry in Journelly file due to invalid timestamp: ''
                 @ quoted timestamp_str])
         | Some ts \<Rightarrow>
             (if i + 1 < length lines then
                (let next_line = strip (lines ! (i + 1)) in
                 if startswith next_line ''- [ ] '' \<or> startswith next_line ''- [X] '' then
                   (Some \<lparr>content = drop 6 next_line, timestamp = ts,
                          is_completed = startswith next_line ''- [X] ''\<rparr>, 1, [])
                 else
                   (None, 0,
                    [''Skipping malformed Journelly entry (task line missing after timestamp): ''
                       @ quoted line]))
              else
                (None, 0,
                 [''Skipping malformed Journelly entry (task line missing at end of file): ''
                    @ quoted line]))))"

function journelly_loop :: "string list \<Rightarrow> nat \<Rightarrow> task list \<times> string list" where
  "journelly_loop lines i =
     (if i < length lines then
        (let line = strip (lines ! i);
             r = parse_journelly_task_from_line line lines i;
             rest = journelly_loop lines (i + 1 + fst (snd r))
         in ((case fst r of Some task \<Rightarrow> [task] | None \<Rightarrow> []) @ fst rest,
             snd (snd r) @ snd rest))
      else ([], []))"
  by pat_completeness auto
termination
  by (relation "measure (\<lambda>(lines, i). length lines - i)") auto

declare journelly_loop.simps [simp del]

definition journelly_parse_tasks :: "string \<Rightarrow> task list \<times> string list" where
  "journelly_parse_tasks text = journelly_loop (split_nl (strip text)) 0"

definition journelly_format_task :: "task \<Rightarrow> string list" where
  "journelly_format_task t =
     [''* ['' @ strftime (timestamp t) @ ''] @ -'',
      ''- '' @ (if is_completed t then ''[X]'' else ''[ ]'') @ '' '' @ content t]"

definition journelly_format_tasks :: "task list \<Rightarrow> string list" where
  "journelly_format_tasks tasks = concat (map journelly_format_task tasks)"

section \<open>BaseParser.write_file\<close>

text \<open>
  \<^verbatim>\<open>sorted(tasks, key=lambda t: t.timestamp, reverse=True)\<close>: latest first, tasks of equal
  timestamp in their order in \<open>tasks\<close>.
\<close>

fun insert_desc :: "task \<Rightarrow> task list \<Rightarrow> task list" where
  "insert_desc t [] = [t]"
| "insert_desc t (u # us) =
     (if dt_less (timestamp t) (timestamp u) then u # insert_desc t us else t # u # us)"

definition sorted_desc :: "task list \<Rightarrow> task list" where
  "sorted_desc tasks = foldr insert_desc tasks []"

text \<open>The text \<^verbatim>\<open>write_file\<close> writes, given the parser's \<^verbatim>\<open>_format_tasks\<close>.\<close>

definition written_text :: "(task list \<Rightarrow> string list) \<Rightarrow> task list \<Rightarrow> string" where
  "written_text format_tasks tasks =
     (let lines = format_tasks (sorted_desc tasks)
      in join_nl lines @ (if lines \<noteq> [] then [newline] else []))"

section \<open>Malformed entries\<close>

text \<open>
  The specification calls the entry of a recognized header malformed when its companion
  line is missing, or not of the required shape, or when the timestamp is not a date and
  time. These predicates say so for the two formats; \<open>i\<close> is the index of the header line.
\<close>

definition beorg_header :: "string \<Rightarrow> bool" where
  "beorg_header line \<longleftrightarrow> startswith line ''* TODO '' \<or> startswith line ''* DONE ''"

definition malformed_beorg_entry :: "string list \<Rightarrow> nat \<Rightarrow> bool" where
  "malformed_beorg_entry lines i \<longleftrightarrow>
     \<not> i + 1 < length lines
     \<or> \<not> re_match beorg_pattern (strip (lines ! (i + 1)))
     \<or> strptime (take 20 (drop 1 (strip (lines ! (i + 1))))) = None"

definition malformed_journelly_entry :: "string list \<Rightarrow> nat \<Rightarrow> bool" where
  "malformed_journelly_entry lines i \<longleftrightarrow>
     \<not> i + 1 < length lines
     \<or> \<not> (startswith (strip (lines ! (i + 1))) ''- [ ] ''
          \<or> startswith (strip (lines ! (i + 1))) ''- [X] '')
     \<or> strptime (take 20 (drop 3 (strip (lines ! i)))) = None"

section \<open>Tasks that a written file gives back\<close>

text \<open>
  The tasks that a written file gives back: the timestamp is a date and time that
  \<^verbatim>\<open>datetime\<close> can hold, of minute precision and with a year of four digits, and the
  content is not empty, has no line feed and does not end in white space.
\<close>

definition minute_precision :: "datetime \<Rightarrow> bool" where
  "minute_precision t \<longleftrightarrow>
     valid_datetime t \<and> 1000 \<le> year t \<and> second t = 0 \<and> microsecond t = 0"

definition roundtrip_task :: "task \<Rightarrow> bool" where
  "roundtrip_task t \<longleftrightarrow>
     content t \<noteq> [] \<and> newline \<notin> set (content t) \<and> \<not> is_space (last (content t))
     \<and> minute_precision (timestamp t)"

section \<open>Lines that differ in a day-of-week token\<close>

text \<open>
  Two lines that differ only in the day-of-week token of a timestamp: after the same
  leading white space both begin with \<open>p\<close> (\<^verbatim>\<open>[\<close> for the timestamp line of the BeOrg
  format, \<^verbatim>\<open>* [\<close> for the header of the Journelly format) and eleven more characters,
  the place of \<^verbatim>\<open>YYYY-MM-DD\<close> and a blank; then each has a weekday abbreviation; and
  the rest is the same.
\<close>

definition weekday_variant :: "string \<Rightarrow> string \<Rightarrow> string \<Rightarrow> bool" where
  "weekday_variant p l1 l2 \<longleftrightarrow>
     (let k = length (takeWhile is_space l1) + length p + 11
      in startswith (dropWhile is_space l1) p
       \<and> k + 3 \<le> length l1 \<and> length l2 = length l1
       \<and> take k l2 = take k l1 \<and> drop (k + 3) l2 = drop (k + 3) l1
       \<and> is_weekday_name (take 3 (drop k l1)) \<and> is_weekday_name (take 3 (drop k l2)))"

definition same_but_weekday :: "string \<Rightarrow> string \<Rightarrow> string \<Rightarrow> bool" where
  "same_but_weekday p l1 l2 \<longleftrightarrow> l1 = l2 \<or> weekday_variant p l1 l2"

section \<open>Test data\<close>

subsection \<open>The tasks of the repository's synchronizer tests\<close>

definition task_a :: task where
  "task_a = \<lparr>content = ''Task A'', timestamp = mk_datetime 2023 1 1 0 0, is_completed = False\<rparr>"

definition task_b :: task where
  "task_b = \<lparr>content = ''Task B'', timestamp = mk_datetime 2023 1 2 0 0, is_completed = False\<rparr>"

definition task_c_done :: task where
  "task_c_done = \<lparr>content = ''Task C'', timestamp = mk_datetime 2023 1 3 0 0, is_completed = True\<rparr>"

definition task_d_early :: task where
  "task_d_early = \<lparr>content = ''Task D'', timestamp = mk_datetime 2023 1 4 0 0, is_completed = False\<rparr>"

definition task_d_late :: task where
  "task_d_late = \<lparr>content = ''Task D'', timestamp = mk_datetime 2023 1 5 0 0, is_completed = False\<rparr>"

subsection \<open>Tasks of the repository's parser tests\<close>

definition test_tasks :: "task list" where
  "test_tasks =
     [\<lparr>content = ''Simple incomplete'', timestamp = mk_datetime 2024 1 1 10 0,
        is_completed = False\<rparr>,
      \<lparr>content = ''Simple completed'', timestamp = mk_datetime 2024 1 2 11 0,
        is_completed = True\<rparr>,
      \<lparr>content = ''Task with numbers 123'', timestamp = mk_datetime 2024 2 5 15 30,
        is_completed = False\<rparr>,
      \<lparr>content = ''Task with symbols !@#$%^&*()'', timestamp = mk_datetime 2024 2 10 9 0,
        is_completed = True\<rparr>]"

section \<open>Properties of the synchronizer\<close>

lemma lex_less_irrefl: "\<not> lex_less xs xs"
  by (induction xs) auto

lemma lex_less_asym: "lex_less xs ys \<Longrightarrow> \<not> lex_less ys xs"
  by (induction xs ys rule: lex_less.induct) auto

lemma dt_min_lower: "\<not> dt_less a (dt_min a b) \<and> \<not> dt_less b (dt_min a b)"
  using lex_less_asym lex_less_irrefl by (auto simp: dt_min_def dt_less_def)

lemma dt_min_cases: "dt_min a b = a \<or> dt_min a b = b"
  by (simp add: dt_min_def)

lemma dt_min_same: "dt_min a a = a"
  by (simp add: dt_min_def)

lemma by_content_snoc: "by_content (ts @ [t]) = (by_content ts)(content t \<mapsto> t)"
  by (simp add: by_content_def)

lemma by_content_Nil: "by_content [] = Map.empty"
  by (simp add: by_content_def)

lemma by_content_last:
  "by_content ts c =
     (if filter (\<lambda>t. content t = c) ts = [] then None
      else Some (last (filter (\<lambda>t. content t = c) ts)))"
  by (induction ts rule: rev_induct) (auto simp: by_content_snoc by_content_Nil)

lemma by_content_key: "by_content ts c = Some t \<Longrightarrow> content t = c \<and> t \<in> set ts"
proof -
  assume a: "by_content ts c = Some t"
  let ?fs = "filter (\<lambda>t. content t = c) ts"
  from a have ne: "?fs \<noteq> []" and t: "t = last ?fs"
    by (auto simp: by_content_last split: if_splits)
  from ne have "last ?fs \<in> set ?fs" by (rule last_in_set)
  with t show ?thesis by auto
qed

lemma dom_by_content: "dom (by_content ts) = content ` set ts"
proof (induction ts rule: rev_induct)
  case Nil
  show ?case by (simp add: by_content_Nil)
next
  case (snoc x xs)
  have "dom (by_content (xs @ [x])) = insert (content x) (dom (by_content xs))"
    by (simp only: by_content_snoc dom_fun_upd) simp
  with snoc show ?case by simp
qed

lemma by_content_distinct:
  "distinct (map content ts) \<Longrightarrow> t \<in> set ts \<Longrightarrow> by_content ts (content t) = Some t"
proof (induction ts rule: rev_induct)
  case Nil
  then show ?case by simp
next
  case (snoc x xs)
  then show ?case by (auto simp: by_content_snoc image_iff)
qed

lemma sync_step_append:
  "sync_step bm jm finals c = (fst finals @ emitted bm jm c, snd finals @ emitted bm jm c)"
  by (cases finals) (auto simp: sync_step_def emitted_def Let_def split: option.splits)

lemma foldl_sync_step:
  "foldl (sync_step bm jm) finals ks =
     (fst finals @ concat (map (emitted bm jm) ks), snd finals @ concat (map (emitted bm jm) ks))"
proof (induction ks arbitrary: finals)
  case Nil
  then show ?case by simp
next
  case (Cons k ks)
  show ?case by (simp add: Cons.IH sync_step_append [of bm jm finals k])
qed

lemma synchronize_concat:
  "synchronize ks A B =
     (concat (map (emitted (by_content A) (by_content B)) ks),
      concat (map (emitted (by_content A) (by_content B)) ks))"
  by (simp add: synchronize_def foldl_sync_step)

lemma emitted_content:
  "t \<in> set (emitted (by_content A) (by_content B) c) \<Longrightarrow> content t = c \<and> \<not> is_completed t"
  by (auto simp: emitted_def sync_step_def Let_def split: option.splits if_splits
           dest: by_content_key)

lemma filter_concat_emitted:
  assumes "distinct ks" and "c \<in> set ks"
  shows "filter (\<lambda>t. content t = c) (concat (map (emitted (by_content A) (by_content B)) ks))
           = emitted (by_content A) (by_content B) c"
  using assms
proof (induction ks)
  case Nil
  then show ?case by simp
next
  case (Cons k ks)
  let ?e = "emitted (by_content A) (by_content B)"
  have same: "filter (\<lambda>t. content t = c) (?e c) = ?e c"
    by (rule filter_True) (auto dest: emitted_content)
  have other: "k' \<noteq> c \<Longrightarrow> filter (\<lambda>t. content t = c) (?e k') = []" for k'
    by (auto simp: filter_empty_conv dest: emitted_content)
  have none: "c \<notin> set ks' \<Longrightarrow> filter (\<lambda>t. content t = c) (concat (map ?e ks')) = []" for ks'
    by (auto simp: filter_empty_conv dest: emitted_content)
  show ?case
  proof (cases "k = c")
    case True
    with Cons.prems have "c \<notin> set ks" by simp
    with True same none show ?thesis by simp
  next
    case False
    with Cons.prems have "c \<in> set ks" and "distinct ks" by auto
    with Cons.IH False other show ?thesis by simp
  qed
qed

lemma in_all_contents:
  "by_content A c = Some a \<or> by_content B c = Some b \<Longrightarrow> c \<in> all_contents A B"
  by (auto simp: all_contents_def)

lemma emitted_both:
  "bm c = Some a \<Longrightarrow> jm c = Some b \<Longrightarrow>
   emitted bm jm c =
     (if is_completed a \<or> is_completed b then []
      else [\<lparr>content = c, timestamp = dt_min (timestamp a) (timestamp b), is_completed = False\<rparr>])"
  by (simp add: emitted_def sync_step_def Let_def)

lemma emitted_one:
  "(bm c = Some s \<and> jm c = None) \<or> (bm c = None \<and> jm c = Some s) \<Longrightarrow>
   emitted bm jm c = (if is_completed s then [] else [s])"
  by (auto simp: emitted_def sync_step_def)

lemma no_content_if_empty:
  assumes "distinct ks" and "c \<in> set ks" and "emitted (by_content A) (by_content B) c = []"
  shows "c \<notin> content ` set (concat (map (emitted (by_content A) (by_content B)) ks))"
proof
  assume "c \<in> content ` set (concat (map (emitted (by_content A) (by_content B)) ks))"
  then obtain t where t: "t \<in> set (concat (map (emitted (by_content A) (by_content B)) ks))"
    and c: "content t = c" by auto
  then have "t \<in> set (filter (\<lambda>t. content t = c)
      (concat (map (emitted (by_content A) (by_content B)) ks)))" by simp
  with assms show False by (simp only: filter_concat_emitted) simp
qed

text \<open>
  C1: a content \<open>c\<close> that both mappings hold is resolved to one merged task, with the
  earlier of the two timestamps (one of the two, and neither of them is before it) and with
  the disjunction of the two completion flags. If the merged task is completed, no task of
  content \<open>c\<close> is in either result; otherwise the merged task is the one task of content
  \<open>c\<close> in each result.
\<close>

theorem synchronize_present_in_both:
  assumes "iteration_order keys A B"
    and "by_content A c = Some a" and "by_content B c = Some b"
  shows "let m = \<lparr>content = c, timestamp = dt_min (timestamp a) (timestamp b),
                  is_completed = (is_completed a \<or> is_completed b)\<rparr>;
             rs = synchronize keys A B
         in (timestamp m = timestamp a \<or> timestamp m = timestamp b)
          \<and> \<not> dt_less (timestamp a) (timestamp m) \<and> \<not> dt_less (timestamp b) (timestamp m)
          \<and> (is_completed m \<longrightarrow> c \<notin> content ` set (fst rs) \<and> c \<notin> content ` set (snd rs))
          \<and> (\<not> is_completed m \<longrightarrow>
                filter (\<lambda>t. content t = c) (fst rs) = [m]
              \<and> filter (\<lambda>t. content t = c) (snd rs) = [m])"
proof -
  from assms have d: "distinct keys" and k: "c \<in> set keys"
    by (auto simp: iteration_order_def all_contents_def)
  note e = emitted_both [where bm = "by_content A" and jm = "by_content B", OF assms(2) assms(3)]
  show ?thesis
  proof (cases "is_completed a \<or> is_completed b")
    case True
    with e have "emitted (by_content A) (by_content B) c = []" by simp
    from no_content_if_empty [OF d k this] True dt_min_lower [of "timestamp a" "timestamp b"]
      dt_min_cases [of "timestamp a" "timestamp b"]
    show ?thesis by (simp add: Let_def synchronize_concat)
  next
    case False
    with e filter_concat_emitted [OF d k, of A B] dt_min_lower [of "timestamp a" "timestamp b"]
      dt_min_cases [of "timestamp a" "timestamp b"]
    show ?thesis by (simp add: Let_def synchronize_concat)
  qed
qed

text \<open>
  C2: a content \<open>c\<close> that exactly one mapping holds, with source task \<open>s\<close>: if \<open>s\<close> is
  completed, no task of content \<open>c\<close> is in either result; otherwise \<open>s\<close> itself, unchanged,
  is the one task of content \<open>c\<close> in each result.
\<close>

theorem synchronize_present_in_one:
  assumes "iteration_order keys A B"
    and "(by_content A c = Some s \<and> by_content B c = None)
       \<or> (by_content A c = None \<and> by_content B c = Some s)"
  shows "(is_completed s \<longrightarrow>
            c \<notin> content ` set (fst (synchronize keys A B))
          \<and> c \<notin> content ` set (snd (synchronize keys A B)))
       \<and> (\<not> is_completed s \<longrightarrow>
            filter (\<lambda>t. content t = c) (fst (synchronize keys A B)) = [s]
          \<and> filter (\<lambda>t. content t = c) (snd (synchronize keys A B)) = [s])"
proof -
  from assms have d: "distinct keys" and k: "c \<in> set keys"
    by (auto simp: iteration_order_def all_contents_def)
  note e = emitted_one [where bm = "by_content A" and jm = "by_content B", OF assms(2)]
  show ?thesis
  proof (cases "is_completed s")
    case True
    with e have "emitted (by_content A) (by_content B) c = []" by simp
    from no_content_if_empty [OF d k this] True
    show ?thesis by (simp add: synchronize_concat)
  next
    case False
    with e filter_concat_emitted [OF d k, of A B]
    show ?thesis by (simp add: synchronize_concat)
  qed
qed

lemma by_content_collapse:
  assumes "\<forall>y\<in>set ys. content y \<noteq> content t"
  shows "by_content (xs @ t # ys) = by_content (filter (\<lambda>x. content x \<noteq> content t) xs @ t # ys)"
proof (rule ext)
  fix c
  show "by_content (xs @ t # ys) c
      = by_content (filter (\<lambda>x. content x \<noteq> content t) xs @ t # ys) c"
  proof (cases "c = content t")
    case True
    with assms have "filter (\<lambda>x. content x = c) ys = []"
      by (auto simp: filter_empty_conv)
    with True show ?thesis by (simp add: by_content_last)
  next
    case False
    then have "filter (\<lambda>x. content x = c) (filter (\<lambda>x. content x \<noteq> content t) xs)
             = filter (\<lambda>x. content x = c) xs"
      by (auto intro: filter_cong)
    then show ?thesis by (simp add: by_content_last)
  qed
qed

text \<open>
  C4: when several tasks of one collection have the same content, the mapping keeps the
  one read last, and the synchronizer returns what it returns for the collection with the
  earlier duplicates removed.
\<close>

theorem by_content_last_wins:
  assumes "\<forall>y\<in>set ys. content y \<noteq> content t"
  shows "by_content (xs @ t # ys) (content t) = Some t
       \<and> synchronize keys (xs @ t # ys) B
           = synchronize keys (filter (\<lambda>x. content x \<noteq> content t) xs @ t # ys) B
       \<and> synchronize keys A (xs @ t # ys)
           = synchronize keys A (filter (\<lambda>x. content x \<noteq> content t) xs @ t # ys)"
proof -
  from assms have "filter (\<lambda>x. content x = content t) ys = []"
    by (auto simp: filter_empty_conv)
  then have "by_content (xs @ t # ys) (content t) = Some t"
    by (simp add: by_content_last)
  with by_content_collapse [OF assms, of xs] show ?thesis
    by (simp add: synchronize_def)
qed

lemma emitted_length: "length (emitted bm jm c) \<le> 1"
  by (simp add: emitted_def sync_step_def Let_def split: option.splits)

lemma result_distinct:
  "distinct ks \<Longrightarrow>
   distinct (map content (concat (map (emitted (by_content A) (by_content B)) ks)))"
proof (induction ks)
  case Nil
  then show ?case by simp
next
  case (Cons k ks)
  let ?e = "emitted (by_content A) (by_content B)"
  have one: "distinct (map content (?e k))"
    using emitted_length [of "by_content A" "by_content B" k]
    by (cases "?e k") (auto simp: Suc_le_eq)
  have disj: "content ` set (?e k) \<inter> content ` set (concat (map ?e ks)) = {}"
  proof -
    have "content ` set (?e k) \<subseteq> {k}" by (auto dest: emitted_content)
    moreover have "content ` set (concat (map ?e ks)) \<subseteq> set ks"
      by (auto dest: emitted_content)
    moreover from Cons.prems have "k \<notin> set ks" by simp
    ultimately show ?thesis by blast
  qed
  from Cons one disj show ?case by simp
qed

lemma emitted_self:
  assumes "distinct (map content T)" and "t \<in> set T" and "\<not> is_completed t"
  shows "emitted (by_content T) (by_content T) (content t) = [t]"
proof -
  from assms have "by_content T (content t) = Some t" by (simp add: by_content_distinct)
  from emitted_both [where bm = "by_content T" and jm = "by_content T", OF this this] assms(3)
  show ?thesis by (simp add: dt_min_same)
qed

lemma concat_emitted_self:
  assumes "distinct (map content T)" and "\<forall>t\<in>set T. \<not> is_completed t"
  shows "set ts \<subseteq> set T \<Longrightarrow>
         concat (map (emitted (by_content T) (by_content T)) (map content ts)) = ts"
proof (induction ts)
  case Nil
  then show ?case by simp
next
  case (Cons t ts)
  with assms have "emitted (by_content T) (by_content T) (content t) = [t]"
    by (simp add: emitted_self)
  with Cons show ?case by simp
qed

lemma mset_concat_map_cong:
  assumes "mset xs = mset ys"
  shows "mset (concat (map f xs)) = mset (concat (map f ys))"
proof -
  have *: "mset (concat (map f zs)) = (\<Sum>x\<in>#mset zs. mset (f x))" for zs
    by (induction zs) auto
  from assms show ?thesis by (simp add: *)
qed

lemma mset_sync_self:
  assumes dT: "distinct (map content T)" and inc: "\<forall>t\<in>set T. \<not> is_completed t"
    and dk: "distinct ks" and sk: "set ks = content ` set T"
  shows "mset (concat (map (emitted (by_content T) (by_content T)) ks)) = mset T"
proof -
  let ?e = "emitted (by_content T) (by_content T)"
  have "mset ks = mset (map content T)"
  proof -
    have "set ks = set (map content T)" using sk by simp
    with dk dT show ?thesis by (simp only: set_eq_iff_mset_eq_distinct)
  qed
  then have "mset (concat (map ?e ks)) = mset (concat (map ?e (map content T)))"
    by (rule mset_concat_map_cong)
  also have "concat (map ?e (map content T)) = T"
    using concat_emitted_self [OF dT inc, of T] by simp
  finally show ?thesis .
qed

lemma content_concat_emitted_self:
  assumes "distinct (map content T)" and "\<forall>t\<in>set T. \<not> is_completed t"
  shows "set ks \<subseteq> content ` set T \<Longrightarrow>
         map content (concat (map (emitted (by_content T) (by_content T)) ks)) = ks"
proof (induction ks)
  case Nil
  then show ?case by simp
next
  case (Cons k ks)
  then obtain t where t: "t \<in> set T" and k: "k = content t" by auto
  with assms have "emitted (by_content T) (by_content T) k = [t]"
    by (simp add: emitted_self)
  with Cons k show ?case by simp
qed

text \<open>
  C5, amended: running \<^verbatim>\<open>synchronize\<close> on its own output removes nothing and adds
  nothing: in whatever order the second run visits the keys, each result holds the same
  tasks as before, listed in that order; so the second run returns the very lists of the
  first exactly when it visits the keys in the order of the first output, which is one of
  the orders it may take.
\<close>

theorem synchronize_idempotent:
  assumes "iteration_order keys A B" and "synchronize keys A B = (A', B')"
    and "iteration_order keys' A' B'"
  shows "mset (fst (synchronize keys' A' B')) = mset A'
       \<and> mset (snd (synchronize keys' A' B')) = mset B'
       \<and> map content (fst (synchronize keys' A' B')) = keys'
       \<and> map content (snd (synchronize keys' A' B')) = keys'
       \<and> (synchronize keys' A' B' = (A', B') \<longleftrightarrow> keys' = map content A')
       \<and> iteration_order (map content A') A' B'
       \<and> synchronize (map content A') A' B' = (A', B')"
proof -
  let ?r = "concat (map (emitted (by_content A) (by_content B)) keys)"
  let ?e = "emitted (by_content A') (by_content A')"
  from assms(2) have A': "A' = ?r" and B': "B' = A'"
    by (auto simp: synchronize_concat)
  from assms(1) have "distinct keys" by (simp add: iteration_order_def)
  then have dT: "distinct (map content A')" unfolding A' by (rule result_distinct)
  have inc: "\<forall>t\<in>set A'. \<not> is_completed t"
    unfolding A' by (auto dest: emitted_content)
  from assms(3) have dk: "distinct keys'" and sk: "set keys' = content ` set A'"
    by (simp_all add: iteration_order_def all_contents_def dom_by_content B')
  have m: "mset (concat (map ?e keys')) = mset A'"
    using dT inc dk sk by (rule mset_sync_self)
  have io: "iteration_order (map content A') A' B'"
    using dT by (simp add: iteration_order_def all_contents_def dom_by_content B')
  have same: "concat (map ?e (map content A')) = A'"
    using concat_emitted_self [OF dT inc, of A'] by simp
  have c: "map content (concat (map ?e keys')) = keys'"
    using content_concat_emitted_self [OF dT inc, of keys'] sk by simp
  have r: "synchronize keys' A' B' = (concat (map ?e keys'), concat (map ?e keys'))"
    by (simp add: synchronize_concat B')
  have iff: "synchronize keys' A' B' = (A', B') \<longleftrightarrow> keys' = map content A'"
  proof
    assume "synchronize keys' A' B' = (A', B')"
    with r have "concat (map ?e keys') = A'" by simp
    with c show "keys' = map content A'" by simp
  next
    assume "keys' = map content A'"
    with same r B' show "synchronize keys' A' B' = (A', B')" by simp
  qed
  from m io same c iff show ?thesis by (simp add: synchronize_concat B')
qed

text \<open>
  C10: the two result lists of \<^verbatim>\<open>synchronize\<close> are the same sequence, whatever the inputs
  and whatever the order in which the keys are visited.
\<close>

theorem synchronize_results_equal:
  "fst (synchronize keys beorg_tasks journelly_tasks)
     = snd (synchronize keys beorg_tasks journelly_tasks)"
  by (simp add: synchronize_concat)

subsection \<open>The theorems at the tests' tasks\<close>

lemmas fixture_defs = task_a_def task_b_def task_c_done_def task_d_early_def task_d_late_def
  mk_datetime_def

lemmas sync_eval = iteration_order_def all_contents_def dom_by_content by_content_def
  synchronize_def sync_step_def dt_min_def dt_less_def dt_key_def Let_def

text \<open>C1 at the tests' \<^verbatim>\<open>Task D\<close>, which both files hold with different timestamps.\<close>

theorem synchronize_present_in_both_witness:
  "iteration_order [''Task B'', ''Task D'', ''Task A''] [task_a, task_d_late] [task_d_early, task_b]
   \<and> by_content [task_a, task_d_late] ''Task D'' = Some task_d_late
   \<and> by_content [task_d_early, task_b] ''Task D'' = Some task_d_early
   \<and> filter (\<lambda>t. content t = ''Task D'')
        (fst (synchronize [''Task B'', ''Task D'', ''Task A'']
               [task_a, task_d_late] [task_d_early, task_b])) = [task_d_early]
   \<and> filter (\<lambda>t. content t = ''Task D'')
        (snd (synchronize [''Task B'', ''Task D'', ''Task A'']
               [task_a, task_d_late] [task_d_early, task_b])) = [task_d_early]"
proof -
  have h1: "iteration_order [''Task B'', ''Task D'', ''Task A'']
              [task_a, task_d_late] [task_d_early, task_b]"
    by (auto simp: sync_eval fixture_defs)
  have h2: "by_content [task_a, task_d_late] ''Task D'' = Some task_d_late"
    by (simp add: sync_eval fixture_defs)
  have h3: "by_content [task_d_early, task_b] ''Task D'' = Some task_d_early"
    by (simp add: sync_eval fixture_defs)
  from synchronize_present_in_both [OF h1 h2 h3] h1 h2 h3 show ?thesis
    by (simp add: Let_def dt_min_def dt_less_def dt_key_def fixture_defs)
qed

text \<open>C2 at the tests' \<^verbatim>\<open>Task B\<close>, which only the second file holds.\<close>

theorem synchronize_present_in_one_witness:
  "iteration_order [''Task C'', ''Task B'', ''Task A''] [task_a, task_c_done] [task_a, task_b]
   \<and> by_content [task_a, task_c_done] ''Task B'' = None
   \<and> by_content [task_a, task_b] ''Task B'' = Some task_b
   \<and> \<not> is_completed task_b
   \<and> filter (\<lambda>t. content t = ''Task B'')
        (fst (synchronize [''Task C'', ''Task B'', ''Task A'']
               [task_a, task_c_done] [task_a, task_b])) = [task_b]
   \<and> filter (\<lambda>t. content t = ''Task B'')
        (snd (synchronize [''Task C'', ''Task B'', ''Task A'']
               [task_a, task_c_done] [task_a, task_b])) = [task_b]"
proof -
  have h1: "iteration_order [''Task C'', ''Task B'', ''Task A'']
              [task_a, task_c_done] [task_a, task_b]"
    by (auto simp: sync_eval fixture_defs)
  have h2: "(by_content [task_a, task_c_done] ''Task B'' = Some task_b
             \<and> by_content [task_a, task_b] ''Task B'' = None)
          \<or> (by_content [task_a, task_c_done] ''Task B'' = None
             \<and> by_content [task_a, task_b] ''Task B'' = Some task_b)"
    by (simp add: sync_eval fixture_defs)
  have h3: "\<not> is_completed task_b" by (simp add: fixture_defs)
  have h4: "by_content [task_a, task_c_done] ''Task B'' = None
          \<and> by_content [task_a, task_b] ''Task B'' = Some task_b"
    by (simp add: sync_eval fixture_defs)
  from synchronize_present_in_one [OF h1 h2] h1 h3 h4 show ?thesis
    by simp
qed

text \<open>C4 at a collection that holds \<^verbatim>\<open>Task D\<close> twice.\<close>

theorem by_content_last_wins_witness:
  "content task_a \<noteq> content task_d_early
   \<and> by_content ([task_d_late, task_b] @ task_d_early # [task_a]) (content task_d_early)
       = Some task_d_early
   \<and> synchronize [''Task D''] ([task_d_late, task_b] @ task_d_early # [task_a]) []
       = synchronize [''Task D''] ([task_b] @ task_d_early # [task_a]) []"
proof -
  have h: "\<forall>y\<in>set [task_a]. content y \<noteq> content task_d_early"
    by (simp add: fixture_defs)
  have f: "filter (\<lambda>x. content x \<noteq> content task_d_early) [task_d_late, task_b] = [task_b]"
    by (simp add: fixture_defs)
  from by_content_last_wins [OF h, of "[task_d_late, task_b]" "[''Task D'']" "[]" "[]"] h f
  show ?thesis by simp
qed

text \<open>
  C5, as stated, fails: the second run returns the tasks of the first output in the order
  in which it visits the keys, which need not be the order of the first output.
\<close>

theorem synchronize_idempotent_counterexample:
  "iteration_order [''Task B'', ''Task A''] [task_a] [task_b]
   \<and> synchronize [''Task B'', ''Task A''] [task_a] [task_b]
       = ([task_b, task_a], [task_b, task_a])
   \<and> iteration_order [''Task A'', ''Task B''] [task_b, task_a] [task_b, task_a]
   \<and> synchronize [''Task A'', ''Task B''] [task_b, task_a] [task_b, task_a]
       = ([task_a, task_b], [task_a, task_b])
   \<and> synchronize [''Task A'', ''Task B''] [task_b, task_a] [task_b, task_a]
       \<noteq> ([task_b, task_a], [task_b, task_a])"
proof -
  have h1: "iteration_order [''Task B'', ''Task A''] [task_a] [task_b]"
    by (auto simp: sync_eval fixture_defs)
  have h2: "synchronize [''Task B'', ''Task A''] [task_a] [task_b]
              = ([task_b, task_a], [task_b, task_a])"
    by (simp add: sync_eval fixture_defs)
  have h3: "iteration_order [''Task A'', ''Task B''] [task_b, task_a] [task_b, task_a]"
    by (auto simp: sync_eval fixture_defs)
  have h4: "synchronize [''Task A'', ''Task B''] [task_b, task_a] [task_b, task_a]
              = ([task_a, task_b], [task_a, task_b])"
    by (simp add: sync_eval fixture_defs)
  have h5: "([task_a, task_b], [task_a, task_b]) \<noteq> ([task_b, task_a], [task_b, task_a])"
    by (simp add: fixture_defs)
  from h1 h2 h3 h4 h5 show ?thesis by (simp only:) simp
qed

text \<open>
  C5, amended, at two of the tests' collections, the second run visiting the keys in another
  order than that of the first output.
\<close>

theorem synchronize_idempotent_witness:
  "iteration_order [''Task C'', ''Task B'', ''Task A''] [task_a, task_c_done] [task_a, task_b]
   \<and> synchronize [''Task C'', ''Task B'', ''Task A''] [task_a, task_c_done] [task_a, task_b]
       = ([task_b, task_a], [task_b, task_a])
   \<and> iteration_order [''Task A'', ''Task B''] [task_b, task_a] [task_b, task_a]
   \<and> mset (fst (synchronize [''Task A'', ''Task B''] [task_b, task_a] [task_b, task_a]))
       = mset [task_b, task_a]
   \<and> mset (snd (synchronize [''Task A'', ''Task B''] [task_b, task_a] [task_b, task_a]))
       = mset [task_b, task_a]
   \<and> map content (fst (synchronize [''Task A'', ''Task B''] [task_b, task_a] [task_b, task_a]))
       = [''Task A'', ''Task B'']
   \<and> map content (snd (synchronize [''Task A'', ''Task B''] [task_b, task_a] [task_b, task_a]))
       = [''Task A'', ''Task B'']
   \<and> synchronize [''Task A'', ''Task B''] [task_b, task_a] [task_b, task_a]
       \<noteq> ([task_b, task_a], [task_b, task_a])
   \<and> synchronize [''Task B'', ''Task A''] [task_b, task_a] [task_b, task_a]
       = ([task_b, task_a], [task_b, task_a])"
proof -
  have h1: "iteration_order [''Task C'', ''Task B'', ''Task A'']
              [task_a, task_c_done] [task_a, task_b]"
    by (auto simp: sync_eval fixture_defs)
  have h2: "synchronize [''Task C'', ''Task B'', ''Task A''] [task_a, task_c_done] [task_a, task_b]
              = ([task_b, task_a], [task_b, task_a])"
    by (simp add: sync_eval fixture_defs)
  have h3: "iteration_order [''Task A'', ''Task B''] [task_b, task_a] [task_b, task_a]"
    by (auto simp: sync_eval fixture_defs)
  have c: "map content [task_b, task_a] = [''Task B'', ''Task A'']"
    by (simp add: fixture_defs)
  from synchronize_idempotent [OF h1 h2 h3] h1 h2 h3 c show ?thesis
    by simp
qed

section \<open>Properties of the parsers\<close>

lemmas char_eval = code_def is_space_def is_digit_def is_word_def newline_def
lemmas text_eval = char_eval strip_def startswith_def lits_def timestamp_group_def
  beorg_pattern_def journelly_pattern_def quoted_def
lemmas time_eval = is_leap_def days_in_month_def digit_val_def int_of_digits_def lower_def
  is_weekday_name_def strptime_def mk_datetime_def
lemmas parse_eval = parse_beorg_timestamp_and_create_task_def parse_task_from_line_def
  beorg_loop.simps beorg_parse_tasks_def parse_journelly_task_from_line_def
  journelly_loop.simps journelly_parse_tasks_def Let_def

lemma re_match_length: "re_match p s \<Longrightarrow> length p \<le> length s"
  by (induction p s rule: re_match.induct) auto

lemma re_match_take:
  "re_match p s \<longleftrightarrow> length p \<le> length s \<and> re_match p (take (length p) s)"
  by (induction p s rule: re_match.induct) auto

lemma length_journelly_pattern: "length journelly_pattern = 28"
  by (simp add: journelly_pattern_def timestamp_group_def lits_def)

lemma length_beorg_pattern: "length beorg_pattern = 22"
  by (simp add: beorg_pattern_def timestamp_group_def lits_def)

lemma length_timestamp_group: "length timestamp_group = 20"
  by (simp add: timestamp_group_def)

lemma re_match_append:
  "length p1 = length s1 \<Longrightarrow>
   re_match (p1 @ p2) (s1 @ s2) \<longleftrightarrow> re_match p1 s1 \<and> re_match p2 s2"
  by (induction p1 s1 rule: list_induct2) auto

lemma strptime_shape:
  assumes "strptime s = Some t"
  shows "re_match timestamp_group s \<and> length s = 20"
  using assms by (simp add: strptime_def Let_def split: if_splits)

lemma re_match_lits: "re_match (lits p) s \<longleftrightarrow> startswith s p"
proof (induction p arbitrary: s)
  case Nil
  then show ?case by (simp add: lits_def startswith_def)
next
  case (Cons a p)
  then show ?case by (cases s) (auto simp: lits_def startswith_def)
qed

lemma journelly_pattern_shape:
  "re_match journelly_pattern line \<longleftrightarrow>
     (\<exists>stamp rest. line = ''* ['' @ stamp @ ''] @ -'' @ rest
         \<and> length stamp = 20 \<and> re_match timestamp_group stamp)"
proof
  assume m: "re_match journelly_pattern line"
  then have len: "28 \<le> length line"
    using re_match_length [of journelly_pattern line] by (simp add: length_journelly_pattern)
  define stamp where "stamp = take 20 (drop 3 line)"
  define rest where "rest = drop 28 line"
  have ls: "length stamp = 20" using len by (simp add: stamp_def)
  have split: "line = take 3 line @ stamp @ take 5 (drop 23 line) @ rest"
  proof -
    have "line = take 3 line @ drop 3 line" by (rule append_take_drop_id [symmetric])
    also have "drop 3 line = take 20 (drop 3 line) @ drop 20 (drop 3 line)"
      by (rule append_take_drop_id [symmetric])
    also have "drop 20 (drop 3 line) = drop 23 line" by simp
    also have "drop 23 line = take 5 (drop 23 line) @ drop 5 (drop 23 line)"
      by (rule append_take_drop_id [symmetric])
    also have "drop 5 (drop 23 line) = drop 28 line" by simp
    finally show ?thesis unfolding stamp_def rest_def .
  qed
  have l3: "length (take 3 line) = 3" and l5: "length (take 5 (drop 23 line)) = 5"
    using len by simp_all
  from m have m': "re_match (lits ''* ['' @ timestamp_group @ lits ''] @ -'')
      (take 3 line @ stamp @ take 5 (drop 23 line) @ rest)"
    using split by (simp add: journelly_pattern_def)
  have la: "length (lits ''* ['') = length (take 3 line)"
    using l3 by (simp add: lits_def)
  have lb: "length timestamp_group = length stamp"
    using ls by (simp add: length_timestamp_group)
  from m' re_match_append [OF la, of "timestamp_group @ lits ''] @ -''"
      "stamp @ take 5 (drop 23 line) @ rest"]
  have a: "re_match (lits ''* ['') (take 3 line)"
    and b: "re_match (timestamp_group @ lits ''] @ -'') (stamp @ take 5 (drop 23 line) @ rest)"
    by blast+
  from b re_match_append [OF lb, of "lits ''] @ -''" "take 5 (drop 23 line) @ rest"]
  have c: "re_match timestamp_group stamp"
    and d: "re_match (lits ''] @ -'') (take 5 (drop 23 line) @ rest)"
    by blast+
  from a l3 have a': "take 3 line = ''* [''"
    by (simp add: re_match_lits startswith_def eval_nat_numeral)
  from d l5 have d': "take 5 (drop 23 line) = ''] @ -''"
    by (simp add: re_match_lits startswith_def eval_nat_numeral)
  from split a' d' ls c show "\<exists>stamp rest. line = ''* ['' @ stamp @ ''] @ -'' @ rest
         \<and> length stamp = 20 \<and> re_match timestamp_group stamp"
    by metis
next
  assume "\<exists>stamp rest. line = ''* ['' @ stamp @ ''] @ -'' @ rest
         \<and> length stamp = 20 \<and> re_match timestamp_group stamp"
  then obtain stamp rest where l: "line = ''* ['' @ stamp @ ''] @ -'' @ rest"
    and ls: "length stamp = 20" and c: "re_match timestamp_group stamp" by blast
  have "re_match (lits ''* ['' @ (timestamp_group @ (lits ''] @ -'' @ []))) (''* ['' @ (stamp @ (''] @ -'' @ rest)))"
    apply (subst re_match_append)
     apply (simp add: lits_def)
    apply (subst re_match_append)
     apply (simp add: ls length_timestamp_group)
    apply (subst re_match_append)
     apply (simp add: lits_def)
    apply (simp add: c re_match_lits startswith_def)
    done
  then show "re_match journelly_pattern line"
    unfolding l journelly_pattern_def by simp
qed

lemma beorg_pattern_not_header:
  "re_match beorg_pattern l \<Longrightarrow> \<not> startswith l ''* TODO '' \<and> \<not> startswith l ''* DONE ''"
  by (cases l) (auto simp: beorg_pattern_def lits_def startswith_def)

lemma beorg_loop_step:
  "i < length lines \<Longrightarrow>
   beorg_loop lines i =
     ((case fst (parse_task_from_line (strip (lines ! i)) lines i) of
         Some task \<Rightarrow> [task] | None \<Rightarrow> [])
        @ fst (beorg_loop lines
                 (i + 1 + fst (snd (parse_task_from_line (strip (lines ! i)) lines i)))),
      snd (snd (parse_task_from_line (strip (lines ! i)) lines i))
        @ snd (beorg_loop lines
                 (i + 1 + fst (snd (parse_task_from_line (strip (lines ! i)) lines i)))))"
  by (subst beorg_loop.simps) (simp add: Let_def)

lemma beorg_loop_end: "\<not> i < length lines \<Longrightarrow> beorg_loop lines i = ([], [])"
  by (subst beorg_loop.simps) simp

lemma journelly_loop_step:
  "i < length lines \<Longrightarrow>
   journelly_loop lines i =
     ((case fst (parse_journelly_task_from_line (strip (lines ! i)) lines i) of
         Some task \<Rightarrow> [task] | None \<Rightarrow> [])
        @ fst (journelly_loop lines
                 (i + 1 + fst (snd (parse_journelly_task_from_line (strip (lines ! i)) lines i)))),
      snd (snd (parse_journelly_task_from_line (strip (lines ! i)) lines i))
        @ snd (journelly_loop lines
                 (i + 1 + fst (snd (parse_journelly_task_from_line (strip (lines ! i)) lines i)))))"
  by (subst journelly_loop.simps) (simp add: Let_def)

lemma journelly_loop_end: "\<not> i < length lines \<Longrightarrow> journelly_loop lines i = ([], [])"
  by (subst journelly_loop.simps) simp

lemma beorg_loop_eval:
  assumes "i < length lines"
    and "parse_task_from_line (strip (lines ! i)) lines i = (t, n, w)"
    and "beorg_loop lines (i + 1 + n) = (ts, ws)"
  shows "beorg_loop lines i = ((case t of Some task \<Rightarrow> [task] | None \<Rightarrow> []) @ ts, w @ ws)"
  using assms(2) assms(3) by (simp add: beorg_loop_step [OF assms(1)])

lemma journelly_loop_eval:
  assumes "i < length lines"
    and "parse_journelly_task_from_line (strip (lines ! i)) lines i = (t, n, w)"
    and "journelly_loop lines (i + 1 + n) = (ts, ws)"
  shows "journelly_loop lines i
           = ((case t of Some task \<Rightarrow> [task] | None \<Rightarrow> []) @ ts, w @ ws)"
  using assms(2) assms(3) by (simp add: journelly_loop_step [OF assms(1)])

lemmas entry_eval = parse_beorg_timestamp_and_create_task_def parse_task_from_line_def
  parse_journelly_task_from_line_def Let_def

text \<open>
  C8, as stated, fails: a header line with more characters after \<^verbatim>\<open>@ -\<close> starts a task.
\<close>

theorem journelly_header_trailing_counterexample:
  "fst (journelly_parse_tasks
          (join_nl [''* [2024-01-01 Mon 10:00] @ - trailing'', ''- [ ] Buy milk'']))
     = [\<lparr>content = ''Buy milk'', timestamp = mk_datetime 2024 1 1 10 0,
          is_completed = False\<rparr>]"
  by (simp add: text_eval parse_eval time_eval)

text \<open>
  C8, amended: \<^verbatim>\<open>re.match\<close> anchors the pattern at the start of the line only. A line
  that begins with \<^verbatim>\<open>* [\<close>, a timestamp and \<^verbatim>\<open>] @ -\<close> is a task header whatever
  follows: with a task line after it, the entry function returns the task and one line
  consumed, and the loop goes on two lines further. A line is a header exactly when it has
  this form, which is when its first 28 characters match the pattern; at any other line
  the entry function returns no task, no line consumed and no warning; and the characters
  after the first 28 change neither the task nor the number of lines consumed.
\<close>

theorem journelly_header_prefix:
  assumes "strptime stamp = Some ts"
    and "i + 1 < length lines"
    and "strip (lines ! i) = ''* ['' @ stamp @ ''] @ -'' @ extra"
    and "strip (lines ! (i + 1)) = box @ c"
    and "box = ''- [ ] '' \<or> box = ''- [X] ''"
  shows "re_match journelly_pattern (''* ['' @ stamp @ ''] @ -'' @ extra)
       \<and> parse_journelly_task_from_line (''* ['' @ stamp @ ''] @ -'' @ extra) lines i
           = (Some \<lparr>content = c, timestamp = ts, is_completed = (box = ''- [X] '')\<rparr>, 1, [])
       \<and> journelly_loop lines i
           = (\<lparr>content = c, timestamp = ts, is_completed = (box = ''- [X] '')\<rparr>
                # fst (journelly_loop lines (i + 2)),
              snd (journelly_loop lines (i + 2)))
       \<and> (re_match journelly_pattern line \<longleftrightarrow>
            (\<exists>s rest. line = ''* ['' @ s @ ''] @ -'' @ rest
                \<and> length s = 20 \<and> re_match timestamp_group s))
       \<and> (re_match journelly_pattern line \<longleftrightarrow>
            28 \<le> length line \<and> re_match journelly_pattern (take 28 line))
       \<and> (\<not> re_match journelly_pattern (take 28 line) \<longrightarrow>
            parse_journelly_task_from_line line lines' j = (None, 0, []))
       \<and> fst (parse_journelly_task_from_line line lines' j)
           = fst (parse_journelly_task_from_line (take 28 line) lines' j)
       \<and> fst (snd (parse_journelly_task_from_line line lines' j))
           = fst (snd (parse_journelly_task_from_line (take 28 line) lines' j))"
proof -
  let ?l = "''* ['' @ stamp @ ''] @ -'' @ extra"
  let ?t = "\<lparr>content = c, timestamp = ts, is_completed = (box = ''- [X] '')\<rparr>"
  from strptime_shape [OF assms(1)]
  have sh: "re_match timestamp_group stamp" and ls: "length stamp = 20" by simp_all
  have r: "re_match journelly_pattern ?l"
    using sh ls by (subst journelly_pattern_shape) blast
  have g: "take 20 (drop 3 ?l) = stamp" using ls by simp
  have n: "strip (lines ! Suc i) = box @ c" using assms(4) by simp
  have b: "startswith (box @ c) ''- [ ] '' \<or> startswith (box @ c) ''- [X] ''"
    using assms(5) by (auto simp: startswith_def)
  have b': "startswith (box @ c) ''- [X] '' \<longleftrightarrow> box = ''- [X] ''"
    using assms(5) by (auto simp: startswith_def)
  have d: "drop 6 (box @ c) = c" using assms(5) by auto
  have p: "parse_journelly_task_from_line ?l lines i = (Some ?t, 1, [])"
    unfolding parse_journelly_task_from_line_def Let_def g
    using r assms(1) assms(2) n b b' d by simp
  have lp: "journelly_loop lines i
           = (?t # fst (journelly_loop lines (i + 2)), snd (journelly_loop lines (i + 2)))"
  proof -
    from assms(2) have i: "i < length lines" by simp
    from p assms(3) have p': "parse_journelly_task_from_line (strip (lines ! i)) lines i
        = (Some ?t, 1, [])" by simp
    have "journelly_loop lines i
        = ((case Some ?t of Some task \<Rightarrow> [task] | None \<Rightarrow> []) @ fst (journelly_loop lines (i + 1 + 1)),
           [] @ snd (journelly_loop lines (i + 1 + 1)))"
      by (rule journelly_loop_eval [OF i p']) simp
    then show ?thesis by (simp add: numeral_2_eq_2)
  qed
  have m: "re_match journelly_pattern line \<longleftrightarrow>
      28 \<le> length line \<and> re_match journelly_pattern (take 28 line)"
    using re_match_take [of journelly_pattern line] by (simp add: length_journelly_pattern)
  have m': "re_match journelly_pattern (take 28 line) = re_match journelly_pattern line"
    using m re_match_length [of journelly_pattern "take 28 line"]
    by (auto simp: length_journelly_pattern)
  have t: "take 20 (drop 3 (take 28 line)) = take 20 (drop 3 line)"
    by (simp add: drop_take)
  have no: "\<not> re_match journelly_pattern (take 28 line) \<longrightarrow>
            parse_journelly_task_from_line line lines' j = (None, 0, [])"
    by (simp add: parse_journelly_task_from_line_def m')
  have p1: "fst (parse_journelly_task_from_line line lines' j)
       = fst (parse_journelly_task_from_line (take 28 line) lines' j)"
    by (simp add: parse_journelly_task_from_line_def m' t Let_def split: option.splits)
  have q1: "fst (snd (parse_journelly_task_from_line line lines' j))
       = fst (snd (parse_journelly_task_from_line (take 28 line) lines' j))"
    by (simp add: parse_journelly_task_from_line_def m' t Let_def split: option.splits)
  note sh' = journelly_pattern_shape [of line]
  from r p lp sh' m no p1 q1 show ?thesis by (simp only:)
qed


text \<open>
  C8, amended, at a header with trailing characters followed by a completed task line, and
  at a line that is no header.
\<close>

theorem journelly_header_prefix_witness:
  "strptime ''2024-02-10 Sat 09:00'' = Some (mk_datetime 2024 2 10 9 0)
   \<and> 0 + 1 < length [''* [2024-02-10 Sat 09:00] @ - (edited)'', ''- [X] Water plants'']
   \<and> strip ([''* [2024-02-10 Sat 09:00] @ - (edited)'', ''- [X] Water plants''] ! 0)
       = ''* ['' @ ''2024-02-10 Sat 09:00'' @ ''] @ -'' @ '' (edited)''
   \<and> strip ([''* [2024-02-10 Sat 09:00] @ - (edited)'', ''- [X] Water plants''] ! (0 + 1))
       = ''- [X] '' @ ''Water plants''
   \<and> re_match journelly_pattern ''* [2024-02-10 Sat 09:00] @ - (edited)''
   \<and> parse_journelly_task_from_line ''* [2024-02-10 Sat 09:00] @ - (edited)''
         [''* [2024-02-10 Sat 09:00] @ - (edited)'', ''- [X] Water plants''] 0
       = (Some \<lparr>content = ''Water plants'', timestamp = mk_datetime 2024 2 10 9 0,
                 is_completed = True\<rparr>, 1, [])
   \<and> journelly_loop [''* [2024-02-10 Sat 09:00] @ - (edited)'', ''- [X] Water plants''] 0
       = ([\<lparr>content = ''Water plants'', timestamp = mk_datetime 2024 2 10 9 0,
            is_completed = True\<rparr>], [])
   \<and> \<not> re_match journelly_pattern (take 28 ''* [2024-02-10 Sat 09:00] @ + (edited)'')
   \<and> parse_journelly_task_from_line ''* [2024-02-10 Sat 09:00] @ + (edited)''
         [''* [2024-02-10 Sat 09:00] @ + (edited)'', ''- [X] Water plants''] 0
       = (None, 0, [])"
proof -
  let ?ls = "[''* [2024-02-10 Sat 09:00] @ - (edited)'', ''- [X] Water plants'']"
  have h1: "strptime ''2024-02-10 Sat 09:00'' = Some (mk_datetime 2024 2 10 9 0)"
    by (simp add: text_eval time_eval)
  have h2: "0 + 1 < length ?ls" by simp
  have h3: "strip (?ls ! 0) = ''* ['' @ ''2024-02-10 Sat 09:00'' @ ''] @ -'' @ '' (edited)''"
    by (simp add: text_eval)
  have h4: "strip (?ls ! (0 + 1)) = ''- [X] '' @ ''Water plants''"
    by (simp add: text_eval)
  have h5: "''- [X] '' = ''- [ ] '' \<or> ''- [X] '' = ''- [X] ''" by simp
  have e: "journelly_loop ?ls (0 + 2) = ([], [])"
    by (simp add: journelly_loop_end)
  have n: "\<not> re_match journelly_pattern (take 28 ''* [2024-02-10 Sat 09:00] @ + (edited)'')"
    by (simp add: text_eval)
  from journelly_header_prefix [OF h1 h2 h3 h4 h5,
      where line = "''* [2024-02-10 Sat 09:00] @ + (edited)''"
        and lines' = "[''* [2024-02-10 Sat 09:00] @ + (edited)'', ''- [X] Water plants'']"
        and j = 0] h1 h2 h3 h4 e n
  show ?thesis by simp
qed

text \<open>
  C7, as stated, fails: for a timestamp line of the right shape that is no calendar date,
  the count of extra lines consumed is 0, not 1, and the index the loop goes on with,
  \<^verbatim>\<open>i + 1 + lines_consumed\<close>, is that of the timestamp line.
\<close>

theorem beorg_invalid_timestamp_counterexample:
  "parse_task_from_line ''* TODO Pay rent''
     [''* TODO Pay rent'', ''[2024-02-30 Fri 10:00]'', ''* TODO Buy milk'',
      ''[2024-03-01 Fri 12:00]''] 0
   = (None, 0,
      [''Skipping entry in BeOrg file due to invalid timestamp: ''
         @ quoted ''2024-02-30 Fri 10:00''])
   \<and> 0 + 1 + fst (snd (parse_task_from_line ''* TODO Pay rent''
         [''* TODO Pay rent'', ''[2024-02-30 Fri 10:00]'', ''* TODO Buy milk'',
          ''[2024-03-01 Fri 12:00]''] 0)) = 1"
  by (simp add: text_eval parse_eval time_eval)

text \<open>
  C7, amended: the entry is discarded with a warning and no extra line is counted as
  consumed, so the loop looks at the timestamp line again; that line is no header and is
  passed over in silence, and the result is the one of resuming after the timestamp line.
\<close>

theorem beorg_invalid_timestamp_rescanned:
  assumes "i + 1 < length lines"
    and "beorg_header (strip (lines ! i))"
    and "re_match beorg_pattern (strip (lines ! (i + 1)))"
    and "strptime (take 20 (drop 1 (strip (lines ! (i + 1))))) = None"
  shows "parse_task_from_line (strip (lines ! i)) lines i
           = (None, 0,
              [''Skipping entry in BeOrg file due to invalid timestamp: ''
                 @ quoted (take 20 (drop 1 (strip (lines ! (i + 1)))))])
       \<and> parse_task_from_line (strip (lines ! (i + 1))) lines (i + 1) = (None, 0, [])
       \<and> beorg_loop lines i
           = (fst (beorg_loop lines (i + 2)),
              (''Skipping entry in BeOrg file due to invalid timestamp: ''
                 @ quoted (take 20 (drop 1 (strip (lines ! (i + 1))))))
              # snd (beorg_loop lines (i + 2)))"
proof -
  let ?w = "''Skipping entry in BeOrg file due to invalid timestamp: ''
                 @ quoted (take 20 (drop 1 (strip (lines ! (i + 1)))))"
  have a: "parse_task_from_line (strip (lines ! i)) lines i = (None, 0, [?w])"
    using assms
    by (simp add: parse_task_from_line_def parse_beorg_timestamp_and_create_task_def
          beorg_header_def Let_def)
  have b: "parse_task_from_line (strip (lines ! (i + 1))) lines (i + 1) = (None, 0, [])"
    using beorg_pattern_not_header [OF assms(3)] by (simp add: parse_task_from_line_def)
  from assms(1) have i: "i < length lines" by simp
  have "beorg_loop lines i = (fst (beorg_loop lines (i + 1)), ?w # snd (beorg_loop lines (i + 1)))"
    by (simp add: beorg_loop_step [OF i] a)
  moreover have "beorg_loop lines (i + 1) = beorg_loop lines (i + 2)"
    using b assms(1) beorg_loop_step [of "i + 1" lines] by simp
  ultimately show ?thesis using a b by simp
qed

text \<open>C7, amended, at an entry dated 30 February that is followed by a good entry.\<close>

theorem beorg_invalid_timestamp_rescanned_witness:
  "beorg_header (strip ([''* TODO Pay rent'', ''[2024-02-30 Fri 10:00]'', ''* TODO Buy milk'',
      ''[2024-03-01 Fri 12:00]''] ! 0))
   \<and> re_match beorg_pattern (strip ([''* TODO Pay rent'', ''[2024-02-30 Fri 10:00]'',
      ''* TODO Buy milk'', ''[2024-03-01 Fri 12:00]''] ! (0 + 1)))
   \<and> strptime ''2024-02-30 Fri 10:00'' = None
   \<and> beorg_loop [''* TODO Pay rent'', ''[2024-02-30 Fri 10:00]'', ''* TODO Buy milk'',
      ''[2024-03-01 Fri 12:00]''] 0
     = ([\<lparr>content = ''Buy milk'', timestamp = mk_datetime 2024 3 1 12 0,
           is_completed = False\<rparr>],
        [''Skipping entry in BeOrg file due to invalid timestamp: ''
           @ quoted ''2024-02-30 Fri 10:00''])"
proof -
  let ?ls = "[''* TODO Pay rent'', ''[2024-02-30 Fri 10:00]'', ''* TODO Buy milk'',
      ''[2024-03-01 Fri 12:00]'']"
  have h1: "0 + 1 < length ?ls" by simp
  have h2: "beorg_header (strip (?ls ! 0))" by (simp add: beorg_header_def text_eval)
  have h3: "re_match beorg_pattern (strip (?ls ! (0 + 1)))" by (simp add: text_eval)
  have h4: "strptime (take 20 (drop 1 (strip (?ls ! (0 + 1))))) = None"
    by (simp add: text_eval time_eval)
  have s: "take 20 (drop 1 (strip (?ls ! (0 + 1)))) = ''2024-02-30 Fri 10:00''"
    by (simp add: text_eval)
  have r: "beorg_loop ?ls (0 + 2)
     = ([\<lparr>content = ''Buy milk'', timestamp = mk_datetime 2024 3 1 12 0,
           is_completed = False\<rparr>], [])"
    by code_simp
  from beorg_invalid_timestamp_rescanned [OF h1 h2 h3 h4] h2 h3 h4 s r show ?thesis
    by simp
qed


lemma beorg_malformed_result:
  assumes "beorg_header line" and "malformed_beorg_entry lines i"
  shows "fst (parse_task_from_line line lines i) = None
       \<and> fst (snd (parse_task_from_line line lines i)) = 0
       \<and> length (snd (snd (parse_task_from_line line lines i))) = 1"
  using assms
  by (auto simp: parse_task_from_line_def parse_beorg_timestamp_and_create_task_def
        beorg_header_def malformed_beorg_entry_def Let_def)

lemma beorg_wellformed_result:
  assumes "beorg_header line" and "\<not> malformed_beorg_entry lines i"
  shows "fst (parse_task_from_line line lines i) \<noteq> None
       \<and> fst (snd (parse_task_from_line line lines i)) = 1
       \<and> snd (snd (parse_task_from_line line lines i)) = []"
  using assms
  by (auto simp: parse_task_from_line_def parse_beorg_timestamp_and_create_task_def
        beorg_header_def malformed_beorg_entry_def Let_def)

lemma journelly_malformed_result:
  assumes "re_match journelly_pattern line" and "malformed_journelly_entry lines i"
    and "line = strip (lines ! i)"
  shows "fst (parse_journelly_task_from_line line lines i) = None
       \<and> fst (snd (parse_journelly_task_from_line line lines i)) = 0
       \<and> length (snd (snd (parse_journelly_task_from_line line lines i))) = 1"
  using assms
  by (auto simp: parse_journelly_task_from_line_def malformed_journelly_entry_def Let_def
           split: option.splits)

text \<open>
  C6: the parsers are total functions of the text: the one exception the library raises,
  the \<^verbatim>\<open>ValueError\<close> of \<^verbatim>\<open>strptime\<close>, is caught. At a recognized header whose entry is
  malformed (companion line missing, of the wrong shape, or timestamp not a date and time)
  no task is returned, exactly one warning is appended, and the loop goes on with the next
  line. A text that is one inbox header gives no task and one warning.
\<close>

theorem malformed_entry_skipped_with_warning:
  assumes "i < length lines" and "beorg_header (strip (lines ! i))"
    and "malformed_beorg_entry lines i"
    and "j < length jlines" and "re_match journelly_pattern (strip (jlines ! j))"
    and "malformed_journelly_entry jlines j"
    and "beorg_header (strip h)"
  shows "(\<exists>w. parse_task_from_line (strip (lines ! i)) lines i = (None, 0, [w])
            \<and> beorg_loop lines i
                = (fst (beorg_loop lines (i + 1)), w # snd (beorg_loop lines (i + 1))))
       \<and> (\<exists>w. parse_journelly_task_from_line (strip (jlines ! j)) jlines j = (None, 0, [w])
            \<and> journelly_loop jlines j
                = (fst (journelly_loop jlines (j + 1)), w # snd (journelly_loop jlines (j + 1))))
       \<and> beorg_loop [h] 0
           = ([], [''Skipping BeOrg task at end of file (timestamp missing): ''
                     @ quoted (strip h)])
       \<and> beorg_parse_tasks ''* TODO Buy milk''
           = ([], [''Skipping BeOrg task at end of file (timestamp missing): ''
                     @ quoted ''* TODO Buy milk''])"
proof -
  let ?r = "parse_task_from_line (strip (lines ! i)) lines i"
  from beorg_malformed_result [OF assms(2) assms(3)]
  obtain w where r: "?r = (None, 0, [w])"
    by (cases ?r) (auto simp: length_Suc_conv)
  have b: "beorg_loop lines i
      = (fst (beorg_loop lines (i + 1)), w # snd (beorg_loop lines (i + 1)))"
    by (simp add: beorg_loop_step [OF assms(1)] r)
  let ?q = "parse_journelly_task_from_line (strip (jlines ! j)) jlines j"
  from journelly_malformed_result [OF assms(5) assms(6) refl]
  obtain v where q: "?q = (None, 0, [v])"
    by (cases ?q) (auto simp: length_Suc_conv)
  have c: "journelly_loop jlines j
      = (fst (journelly_loop jlines (j + 1)), v # snd (journelly_loop jlines (j + 1)))"
    by (simp add: journelly_loop_step [OF assms(4)] q)
  have d: "beorg_loop [h] 0
           = ([], [''Skipping BeOrg task at end of file (timestamp missing): ''
                     @ quoted (strip h)])"
    using assms(7) beorg_loop_step [of 0 "[h]"]
    by (simp add: parse_task_from_line_def parse_beorg_timestamp_and_create_task_def
          beorg_header_def beorg_loop_end)
  have e: "beorg_parse_tasks ''* TODO Buy milk''
           = ([], [''Skipping BeOrg task at end of file (timestamp missing): ''
                     @ quoted ''* TODO Buy milk''])"
    by (simp add: text_eval parse_eval)
  from r b q c d e show ?thesis by blast
qed

text \<open>C6 at an inbox entry without timestamp line and a journal entry dated 30 February, each
  followed by a good entry, and at a lone header with blanks around it.\<close>

theorem malformed_entry_skipped_with_warning_witness:
  "beorg_header (strip ([''* TODO Pay rent'', ''2024-02-28'', ''* DONE Buy milk'',
      ''[2024-03-01 Fri 12:00]''] ! 0))
   \<and> malformed_beorg_entry [''* TODO Pay rent'', ''2024-02-28'', ''* DONE Buy milk'',
      ''[2024-03-01 Fri 12:00]''] 0
   \<and> re_match journelly_pattern (strip ([''* [2024-02-30 Fri 10:00] @ -'', ''- [ ] Pay rent'',
      ''* [2024-03-01 Fri 12:00] @ -'', ''- [X] Buy milk''] ! 0))
   \<and> malformed_journelly_entry [''* [2024-02-30 Fri 10:00] @ -'', ''- [ ] Pay rent'',
      ''* [2024-03-01 Fri 12:00] @ -'', ''- [X] Buy milk''] 0
   \<and> beorg_header (strip ''  * DONE Buy milk  '')
   \<and> beorg_loop [''* TODO Pay rent'', ''2024-02-28'', ''* DONE Buy milk'',
      ''[2024-03-01 Fri 12:00]''] 0
     = ([\<lparr>content = ''Buy milk'', timestamp = mk_datetime 2024 3 1 12 0,
           is_completed = True\<rparr>],
        [''Skipping malformed BeOrg task (timestamp missing or wrong format): ''
           @ quoted ''* TODO Pay rent''])
   \<and> journelly_loop [''* [2024-02-30 Fri 10:00] @ -'', ''- [ ] Pay rent'',
      ''* [2024-03-01 Fri 12:00] @ -'', ''- [X] Buy milk''] 0
     = ([\<lparr>content = ''Buy milk'', timestamp = mk_datetime 2024 3 1 12 0,
           is_completed = True\<rparr>],
        [''Skipping entry in Journelly file due to invalid timestamp: ''
           @ quoted ''2024-02-30 Fri 10:00''])
   \<and> beorg_loop [''  * DONE Buy milk  ''] 0
     = ([], [''Skipping BeOrg task at end of file (timestamp missing): ''
               @ quoted ''* DONE Buy milk''])"
proof -
  let ?ls = "[''* TODO Pay rent'', ''2024-02-28'', ''* DONE Buy milk'',
      ''[2024-03-01 Fri 12:00]'']"
  let ?js = "[''* [2024-02-30 Fri 10:00] @ -'', ''- [ ] Pay rent'',
      ''* [2024-03-01 Fri 12:00] @ -'', ''- [X] Buy milk'']"
  have h1: "0 < length ?ls" by simp
  have h2: "beorg_header (strip (?ls ! 0))" by (simp add: beorg_header_def text_eval)
  have h3: "malformed_beorg_entry ?ls 0" by (simp add: malformed_beorg_entry_def text_eval)
  have h4: "0 < length ?js" by simp
  have h5: "re_match journelly_pattern (strip (?js ! 0))" by (simp add: text_eval)
  have h6: "malformed_journelly_entry ?js 0"
    by (simp add: malformed_journelly_entry_def text_eval time_eval)
  have h7: "beorg_header (strip ''  * DONE Buy milk  '')"
    by (simp add: beorg_header_def text_eval)
  have s: "strip ''  * DONE Buy milk  '' = ''* DONE Buy milk''" by (simp add: text_eval)
  have b1: "beorg_loop ?ls (0 + 1)
     = ([\<lparr>content = ''Buy milk'', timestamp = mk_datetime 2024 3 1 12 0,
           is_completed = True\<rparr>], [])"
    by code_simp
  have j1: "journelly_loop ?js (0 + 1)
     = ([\<lparr>content = ''Buy milk'', timestamp = mk_datetime 2024 3 1 12 0,
           is_completed = True\<rparr>], [])"
    by code_simp
  have w1: "parse_task_from_line (strip (?ls ! 0)) ?ls 0
     = (None, 0, [''Skipping malformed BeOrg task (timestamp missing or wrong format): ''
           @ quoted ''* TODO Pay rent''])"
    by code_simp
  have w2: "parse_journelly_task_from_line (strip (?js ! 0)) ?js 0
     = (None, 0, [''Skipping entry in Journelly file due to invalid timestamp: ''
           @ quoted ''2024-02-30 Fri 10:00''])"
    by code_simp
  from malformed_entry_skipped_with_warning [OF h1 h2 h3 h4 h5 h6 h7]
  have "(\<exists>w. parse_task_from_line (strip (?ls ! 0)) ?ls 0 = (None, 0, [w])
            \<and> beorg_loop ?ls 0 = (fst (beorg_loop ?ls (0 + 1)), w # snd (beorg_loop ?ls (0 + 1))))"
    and "(\<exists>w. parse_journelly_task_from_line (strip (?js ! 0)) ?js 0 = (None, 0, [w])
            \<and> journelly_loop ?js 0
                = (fst (journelly_loop ?js (0 + 1)), w # snd (journelly_loop ?js (0 + 1))))"
    and "beorg_loop [''  * DONE Buy milk  ''] 0
           = ([], [''Skipping BeOrg task at end of file (timestamp missing): ''
                     @ quoted (strip ''  * DONE Buy milk  '')])"
    by blast+
  with w1 w2 b1 j1 s h2 h3 h5 h6 h7 show ?thesis by simp
qed

section \<open>The round trip of formatting and parsing\<close>

subsection \<open>Digits and timestamps\<close>

lemma less_10_cases:
  "(k::nat) < 10 \<Longrightarrow>
   k = 0 \<or> k = 1 \<or> k = 2 \<or> k = 3 \<or> k = 4 \<or> k = 5 \<or> k = 6 \<or> k = 7 \<or> k = 8 \<or> k = 9"
  by arith

lemma digit_char_props:
  assumes "k < 10"
  shows "is_digit (digit_char k) \<and> digit_val (digit_char k) = k \<and> is_word (digit_char k)"
  using less_10_cases [OF assms]
  by (auto simp: digit_char_def is_digit_def digit_val_def code_def is_word_def)

lemma is_digit_is_word: "is_digit c \<Longrightarrow> is_word c"
  by (simp add: is_word_def)

lemma decimal_small: "n < 10 \<Longrightarrow> decimal n = [digit_char n]"
  by (subst decimal.simps) simp

lemma decimal_big: "\<not> n < 10 \<Longrightarrow> decimal n = decimal (n div 10) @ [digit_char (n mod 10)]"
  by (subst decimal.simps) simp

lemma decimal_2:
  assumes "10 \<le> n" and "n < 100"
  shows "decimal n = [digit_char (n div 10), digit_char (n mod 10)]"
proof -
  from assms have a: "\<not> n < 10" and b: "n div 10 < 10" by arith+
  show ?thesis by (simp add: decimal_big [OF a] decimal_small [OF b])
qed

lemma decimal_3:
  assumes "100 \<le> n" and "n < 1000"
  shows "decimal n = [digit_char (n div 100), digit_char (n div 10 mod 10), digit_char (n mod 10)]"
proof -
  from assms have a: "\<not> n < 10" and b: "10 \<le> n div 10" and c: "n div 10 < 100" by arith+
  have d: "n div 10 div 10 = n div 100" by (simp add: div_mult2_eq [symmetric])
  show ?thesis by (simp add: decimal_big [OF a] decimal_2 [OF b c] d)
qed

lemma decimal_4:
  assumes "1000 \<le> n" and "n < 10000"
  shows "decimal n = [digit_char (n div 1000), digit_char (n div 100 mod 10),
                      digit_char (n div 10 mod 10), digit_char (n mod 10)]"
proof -
  from assms have a: "\<not> n < 10" and b: "100 \<le> n div 10" and c: "n div 10 < 1000" by arith+
  have d: "n div 10 div 100 = n div 1000" "n div 10 div 10 = n div 100"
    by (simp_all add: div_mult2_eq [symmetric])
  show ?thesis by (simp add: decimal_big [OF a] decimal_3 [OF b c] d)
qed

lemma pad2_eq:
  assumes "n < 100"
  shows "pad2 n = [digit_char (n div 10), digit_char (n mod 10)]"
proof (cases "n < 10")
  case True
  then show ?thesis by (simp add: pad2_def digit_char_def decimal_small)
next
  case False
  with assms have "decimal n = [digit_char (n div 10), digit_char (n mod 10)]"
    by (intro decimal_2) auto
  then show ?thesis by (simp add: pad2_def)
qed


lemma day_abbr_all:
  "\<forall>k\<in>set [0..<7]. length (day_abbr k) = 3 \<and> list_all is_word (day_abbr k)
                       \<and> is_weekday_name (day_abbr k)"
  by code_simp

lemma day_abbr_shape:
  assumes "k < 7"
  shows "length (day_abbr k) = 3 \<and> list_all is_word (day_abbr k)
       \<and> is_weekday_name (day_abbr k)"
proof -
  from assms have "k \<in> set [0..<7]" by simp
  with day_abbr_all show ?thesis by blast
qed

lemma upper_letters_words: "\<forall>c\<in>set ''ABCDEFGHIJKLMNOPQRSTUVWXYZ''. is_word c"
  by code_simp

lemma lower_letters_words: "\<forall>c\<in>set ''abcdefghijklmnopqrstuvwxyz''. is_word c"
  by code_simp

lemma lower_letter_word:
  assumes "lower c \<in> set ''abcdefghijklmnopqrstuvwxyz''"
  shows "is_word c"
proof (cases "map_of (zip ''ABCDEFGHIJKLMNOPQRSTUVWXYZ'' ''abcdefghijklmnopqrstuvwxyz'') c")
  case None
  with assms have "c \<in> set ''abcdefghijklmnopqrstuvwxyz''" by (simp add: lower_def)
  with lower_letters_words show ?thesis by blast
next
  case (Some l)
  then have "(c, l) \<in> set (zip ''ABCDEFGHIJKLMNOPQRSTUVWXYZ'' ''abcdefghijklmnopqrstuvwxyz'')"
    by (rule map_of_SomeD)
  then have "c \<in> set ''ABCDEFGHIJKLMNOPQRSTUVWXYZ''" by (rule set_zip_leftD)
  with upper_letters_words show ?thesis by blast
qed

lemma weekday_names_letters:
  "\<forall>n\<in>set [''mon'', ''tue'', ''wed'', ''thu'', ''fri'', ''sat'', ''sun''].
     length n = 3 \<and> set n \<subseteq> set ''abcdefghijklmnopqrstuvwxyz''"
  by code_simp

lemma weekday_name_shape:
  assumes "is_weekday_name d"
  shows "length d = 3 \<and> list_all is_word d"
proof -
  from assms weekday_names_letters
  have l: "length (map lower d) = 3"
    and s: "set (map lower d) \<subseteq> set ''abcdefghijklmnopqrstuvwxyz''"
    unfolding is_weekday_name_def by blast+
  have "is_word c" if "c \<in> set d" for c
  proof -
    from that have "lower c \<in> lower ` set d" by (rule imageI)
    then have "lower c \<in> set (map lower d)" by (simp only: set_map)
    with s have "lower c \<in> set ''abcdefghijklmnopqrstuvwxyz''" by (rule subsetD)
    then show ?thesis by (rule lower_letter_word)
  qed
  with l show ?thesis by (simp add: list_all_iff)
qed


lemma strptime_explicit:
  "strptime [y1, y2, y3, y4, CHR ''-'', m1, m2, CHR ''-'', d1, d2, CHR '' '', a, b, c,
             CHR '' '', h1, h2, CHR '':'', n1, n2]
   = (let y = int_of_digits [y1, y2, y3, y4]; m = int_of_digits [m1, m2];
          d = int_of_digits [d1, d2]; H = int_of_digits [h1, h2]; M = int_of_digits [n1, n2]
      in if (is_digit y1 \<and> is_digit y2 \<and> is_digit y3 \<and> is_digit y4 \<and> is_digit m1
             \<and> is_digit m2 \<and> is_digit d1 \<and> is_digit d2 \<and> is_word a \<and> is_word b
             \<and> is_word c \<and> is_digit h1 \<and> is_digit h2 \<and> is_digit n1 \<and> is_digit n2)
            \<and> 1 \<le> m \<and> m \<le> 12 \<and> 1 \<le> d \<and> d \<le> 31 \<and> is_weekday_name [a, b, c]
            \<and> H \<le> 23 \<and> M \<le> 59 \<and> 1 \<le> y \<and> d \<le> days_in_month y m
         then Some (mk_datetime y m d H M) else None)"
  by (simp add: strptime_def timestamp_group_def Let_def)
lemma int_of_digits_2:
  "a < 10 \<Longrightarrow> b < 10 \<Longrightarrow> int_of_digits [digit_char a, digit_char b] = 10 * a + b"
  by (simp add: int_of_digits_def digit_char_props)
lemma int_of_digits_4:
  "a < 10 \<Longrightarrow> b < 10 \<Longrightarrow> c < 10 \<Longrightarrow> d < 10 \<Longrightarrow>
   int_of_digits [digit_char a, digit_char b, digit_char c, digit_char d]
     = 10 * (10 * (10 * a + b) + c) + d"
  by (simp add: int_of_digits_def digit_char_props)

lemma digits4:
  "10 * (10 * (10 * (y div 1000) + y div 100 mod 10) + y div 10 mod 10) + y mod 10 = (y::nat)"
proof -
  have a: "y div 100 div 10 = y div 1000" "y div 10 div 10 = y div 100"
    by (simp_all add: div_mult2_eq [symmetric])
  have "10 * (y div 1000) + y div 100 mod 10 = y div 100"
    using mult_div_mod_eq [of 10 "y div 100"] by (simp only: a)
  moreover have "10 * (y div 100) + y div 10 mod 10 = y div 10"
    using mult_div_mod_eq [of 10 "y div 10"] by (simp only: a)
  moreover have "10 * (y div 10) + y mod 10 = y"
    by (rule mult_div_mod_eq)
  ultimately show ?thesis by (simp only:)
qed

lemma weekday_less_7: "weekday t < 7"
  by (simp add: weekday_def)
lemma days_in_month_le_31: "1 \<le> m \<Longrightarrow> m \<le> 12 \<Longrightarrow> days_in_month y m \<le> 31"
proof -
  assume "1 \<le> m" and "m \<le> 12"
  then have "m \<in> set [1..<13]" by simp
  moreover have "\<forall>m\<in>set [1..<13]. [31, 28, 31, 30, 31, 30, 31, 31, 30, 31, 30, 31] ! (m - 1)
                   \<le> (31::nat)"
    by code_simp
  ultimately show ?thesis by (auto simp: days_in_month_def)
qed

lemma strftime_explicit:
  assumes "minute_precision t"
  shows "\<exists>a b c. day_abbr (weekday t) = [a, b, c] \<and> is_word a \<and> is_word b \<and> is_word c
          \<and> is_weekday_name [a, b, c]
          \<and> strftime t =
              [digit_char (year t div 1000), digit_char (year t div 100 mod 10),
               digit_char (year t div 10 mod 10), digit_char (year t mod 10), CHR ''-'',
               digit_char (month t div 10), digit_char (month t mod 10), CHR ''-'',
               digit_char (day t div 10), digit_char (day t mod 10), CHR '' '', a, b, c,
               CHR '' '', digit_char (hour t div 10), digit_char (hour t mod 10), CHR '':'',
               digit_char (minute t div 10), digit_char (minute t mod 10)]"
proof -
  from assms have v: "valid_datetime t" and y: "1000 \<le> year t"
    by (simp_all add: minute_precision_def)
  from v have y': "year t < 10000" and m: "month t < 100" and h: "hour t < 100"
    and mi: "minute t < 100" and m1: "1 \<le> month t" and m12: "month t \<le> 12"
    and d: "day t \<le> days_in_month (year t) (month t)"
    by (simp_all add: valid_datetime_def)
  from d days_in_month_le_31 [OF m1 m12, of "year t"] have d': "day t < 100" by simp
  from day_abbr_shape [OF weekday_less_7, of t]
  obtain a b c where abc: "day_abbr (weekday t) = [a, b, c]"
    and w: "list_all is_word (day_abbr (weekday t))"
    and n: "is_weekday_name (day_abbr (weekday t))"
    by (auto simp: length_Suc_conv eval_nat_numeral)
  from w n abc have "is_word a \<and> is_word b \<and> is_word c \<and> is_weekday_name [a, b, c]"
    by simp
  moreover have "strftime t =
              [digit_char (year t div 1000), digit_char (year t div 100 mod 10),
               digit_char (year t div 10 mod 10), digit_char (year t mod 10), CHR ''-'',
               digit_char (month t div 10), digit_char (month t mod 10), CHR ''-'',
               digit_char (day t div 10), digit_char (day t mod 10), CHR '' '', a, b, c,
               CHR '' '', digit_char (hour t div 10), digit_char (hour t mod 10), CHR '':'',
               digit_char (minute t div 10), digit_char (minute t mod 10)]"
    by (simp add: strftime_def decimal_4 [OF y y'] pad2_eq [OF m] pad2_eq [OF d']
          pad2_eq [OF h] pad2_eq [OF mi] abc)
  ultimately show ?thesis using abc by blast
qed
lemma strptime_strftime:
  assumes "minute_precision t"
  shows "strptime (strftime t) = Some t"
proof -
  from assms have v: "valid_datetime t" and y: "1000 \<le> year t"
    and s: "second t = 0" "microsecond t = 0"
    by (simp_all add: minute_precision_def)
  from v have y': "year t < 10000" and m1: "1 \<le> month t" and m12: "month t \<le> 12"
    and d1: "1 \<le> day t" and d: "day t \<le> days_in_month (year t) (month t)"
    and h: "hour t \<le> 23" and mi: "minute t \<le> 59"
    by (simp_all add: valid_datetime_def)
  from d days_in_month_le_31 [OF m1 m12, of "year t"] have d31: "day t \<le> 31" by simp
  from strftime_explicit [OF assms]
  obtain a b c where w: "is_word a \<and> is_word b \<and> is_word c \<and> is_weekday_name [a, b, c]"
    and f: "strftime t =
              [digit_char (year t div 1000), digit_char (year t div 100 mod 10),
               digit_char (year t div 10 mod 10), digit_char (year t mod 10), CHR ''-'',
               digit_char (month t div 10), digit_char (month t mod 10), CHR ''-'',
               digit_char (day t div 10), digit_char (day t mod 10), CHR '' '', a, b, c,
               CHR '' '', digit_char (hour t div 10), digit_char (hour t mod 10), CHR '':'',
               digit_char (minute t div 10), digit_char (minute t mod 10)]"
    by blast
  have y1: "year t div 1000 < 10" using y' by arith
  have y2: "year t div 100 mod 10 < 10" by simp
  have y3: "year t div 10 mod 10 < 10" by simp
  have y4: "year t mod 10 < 10" by simp
  have mo1: "month t div 10 < 10" using m12 by arith
  have mo2: "month t mod 10 < 10" by simp
  have da1: "day t div 10 < 10" using d31 by arith
  have da2: "day t mod 10 < 10" by simp
  have h1: "hour t div 10 < 10" using h by arith
  have h2: "hour t mod 10 < 10" by simp
  have n1: "minute t div 10 < 10" using mi by arith
  have n2: "minute t mod 10 < 10" by simp
  have iy: "int_of_digits [digit_char (year t div 1000), digit_char (year t div 100 mod 10),
               digit_char (year t div 10 mod 10), digit_char (year t mod 10)] = year t"
    by (simp only: int_of_digits_4 [OF y1 y2 y3 y4] digits4)
  have im: "int_of_digits [digit_char (month t div 10), digit_char (month t mod 10)] = month t"
    by (simp only: int_of_digits_2 [OF mo1 mo2] mult_div_mod_eq)
  have id: "int_of_digits [digit_char (day t div 10), digit_char (day t mod 10)] = day t"
    by (simp only: int_of_digits_2 [OF da1 da2] mult_div_mod_eq)
  have ih: "int_of_digits [digit_char (hour t div 10), digit_char (hour t mod 10)] = hour t"
    by (simp only: int_of_digits_2 [OF h1 h2] mult_div_mod_eq)
  have ii: "int_of_digits [digit_char (minute t div 10), digit_char (minute t mod 10)]
              = minute t"
    by (simp only: int_of_digits_2 [OF n1 n2] mult_div_mod_eq)
  note dg = digit_char_props [OF y1] digit_char_props [OF y2] digit_char_props [OF y3]
    digit_char_props [OF y4] digit_char_props [OF mo1] digit_char_props [OF mo2]
    digit_char_props [OF da1] digit_char_props [OF da2] digit_char_props [OF h1]
    digit_char_props [OF h2] digit_char_props [OF n1] digit_char_props [OF n2]
  have e: "mk_datetime (year t) (month t) (day t) (hour t) (minute t) = t"
    using s by (simp add: mk_datetime_def)
  have ok: "1 \<le> year t" using y by simp
  show ?thesis
    unfolding f strptime_explicit iy im id ih ii Let_def
    by (simp only: dg w m1 m12 d1 d d31 h mi ok e simp_thms if_True)
qed

subsection \<open>Stripping, splitting and joining\<close>

lemma dropWhile_hd: "xs \<noteq> [] \<Longrightarrow> \<not> P (hd xs) \<Longrightarrow> dropWhile P xs = xs"
  by (cases xs) auto

lemma dropWhile_rev_last:
  assumes "s \<noteq> []" and "\<not> P (last s)"
  shows "dropWhile P (rev s) = rev s"
proof -
  from assms(1) have "rev s \<noteq> []" and "hd (rev s) = last s" by (simp_all add: hd_rev)
  with assms(2) show ?thesis by (simp add: dropWhile_hd)
qed

lemma strip_id:
  assumes "s \<noteq> []" and "\<not> is_space (hd s)" and "\<not> is_space (last s)"
  shows "strip s = s"
proof -
  from assms(1,2) have a: "dropWhile is_space s = s" by (rule dropWhile_hd)
  from assms(1,3) have "dropWhile is_space (rev s) = rev s" by (rule dropWhile_rev_last)
  with a show ?thesis by (simp add: strip_def)
qed

lemma is_space_newline: "is_space newline"
  by (simp add: is_space_def newline_def code_def)

lemma strip_trailing_newline:
  assumes "s \<noteq> []" and "\<not> is_space (hd s)" and "\<not> is_space (last s)"
  shows "strip (s @ [newline]) = s"
proof -
  from assms(1,2) have a: "dropWhile is_space (s @ [newline]) = s @ [newline]"
    by (cases s) auto
  from assms(1,3) have "dropWhile is_space (rev s) = rev s" by (rule dropWhile_rev_last)
  with a show ?thesis by (simp add: strip_def is_space_newline)
qed

lemma split_nl_line:
  "newline \<notin> set l \<Longrightarrow> split_nl (l @ newline # rest) = l # split_nl rest"
  by (induction l) auto

lemma split_nl_single: "newline \<notin> set l \<Longrightarrow> split_nl l = [l]"
  by (induction l) auto

lemma split_join:
  "ls \<noteq> [] \<Longrightarrow> \<forall>l\<in>set ls. newline \<notin> set l \<Longrightarrow> split_nl (join_nl ls) = ls"
proof (induction ls rule: join_nl.induct)
  case 1
  then show ?case by simp
next
  case (2 l)
  then show ?case by (simp add: split_nl_single)
next
  case (3 l v va)
  then show ?case by (simp add: split_nl_line)
qed

lemma join_nl_hd_last:
  "ls \<noteq> [] \<Longrightarrow> \<forall>l\<in>set ls. l \<noteq> [] \<Longrightarrow>
   join_nl ls \<noteq> [] \<and> hd (join_nl ls) = hd (hd ls) \<and> last (join_nl ls) = last (last ls)"
proof (induction ls rule: join_nl.induct)
  case 1
  then show ?case by simp
next
  case (2 l)
  then show ?case by simp
next
  case (3 l v va)
  then show ?case by (cases l) auto
qed

subsection \<open>Patterns\<close>

lemma re_match_chars:
  "re_match p s \<Longrightarrow> length s = length p \<Longrightarrow> \<forall>c\<in>set s. \<exists>q\<in>set p. pat_ok q c"
  by (induction p s rule: re_match.induct) auto

lemma timestamp_group_chars:
  "\<forall>q\<in>set timestamp_group. \<not> pat_ok q newline \<and> (q = Lit CHR '' '' \<or> (\<forall>c. pat_ok q c \<longrightarrow> \<not> is_space c))"
  by (auto simp: timestamp_group_def newline_def is_digit_def is_word_def is_space_def code_def)

lemma timestamp_no_newline:
  assumes "re_match timestamp_group s" and "length s = 20"
  shows "newline \<notin> set s"
proof
  assume "newline \<in> set s"
  with re_match_chars [OF assms(1)] assms(2)
  obtain q where "q \<in> set timestamp_group" and "pat_ok q newline"
    by (auto simp: length_timestamp_group)
  with timestamp_group_chars show False by blast
qed

subsection \<open>One written entry, read back\<close>

lemma not_space_chars:
  "\<not> is_space CHR ''*''" "\<not> is_space CHR ''[''" "\<not> is_space CHR '']''"
  "\<not> is_space CHR ''-''"
  by (simp_all add: is_space_def code_def)

lemma task_eta:
  "\<lparr>content = content t, timestamp = timestamp t, is_completed = is_completed t\<rparr> = (t::task)"
  by simp

lemma strftime_shape:
  assumes "minute_precision ts"
  shows "re_match timestamp_group (strftime ts) \<and> length (strftime ts) = 20
       \<and> newline \<notin> set (strftime ts)"
proof -
  from strptime_strftime [OF assms] have "re_match timestamp_group (strftime ts)"
    and "length (strftime ts) = 20" by (auto dest: strptime_shape)
  then show ?thesis by (simp add: timestamp_no_newline)
qed

lemma beorg_entry_roundtrip:
  assumes rt: "roundtrip_task t" and i: "Suc i < length lines"
    and l0: "lines ! i
               = ''* '' @ (if is_completed t then ''DONE'' else ''TODO'') @ '' '' @ content t"
    and l1: "lines ! (Suc i) = ''['' @ strftime (timestamp t) @ '']''"
  shows "parse_task_from_line (strip (lines ! i)) lines i = (Some t, 1, [])"
proof -
  from rt have c: "content t \<noteq> []" and sp: "\<not> is_space (last (content t))"
    and mp: "minute_precision (timestamp t)"
    by (simp_all add: roundtrip_task_def)
  from c sp have s0: "strip (lines ! i) = lines ! i"
    unfolding l0 by (intro strip_id) (simp_all add: not_space_chars)
  have s1: "strip (lines ! (Suc i)) = lines ! (Suc i)"
    unfolding l1 by (intro strip_id) (simp_all add: not_space_chars)
  from strftime_shape [OF mp] have sh: "re_match timestamp_group (strftime (timestamp t))"
    and len: "length (strftime (timestamp t)) = 20" by simp_all
  have m: "re_match beorg_pattern (lines ! (Suc i))"
    unfolding l1 beorg_pattern_def
    using sh len by (simp add: lits_def re_match_append length_timestamp_group)
  have g: "take 20 (drop (Suc 0) (lines ! (Suc i))) = strftime (timestamp t)"
    unfolding l1 using len by simp
  have h: "startswith (lines ! i) ''* TODO '' = (\<not> is_completed t)"
    "startswith (lines ! i) ''* DONE '' = is_completed t"
    "drop 7 (lines ! i) = content t"
    unfolding l0 by (simp_all add: startswith_def)
  show ?thesis
    unfolding s0
    by (simp add: parse_task_from_line_def parse_beorg_timestamp_and_create_task_def h i s1 m g
          strptime_strftime [OF mp] Let_def)
qed

lemma journelly_entry_roundtrip:
  assumes rt: "roundtrip_task t" and i: "Suc i < length lines"
    and l0: "lines ! i = ''* ['' @ strftime (timestamp t) @ ''] @ -''"
    and l1: "lines ! (Suc i)
               = ''- '' @ (if is_completed t then ''[X]'' else ''[ ]'') @ '' '' @ content t"
  shows "parse_journelly_task_from_line (strip (lines ! i)) lines i = (Some t, 1, [])"
proof -
  from rt have c: "content t \<noteq> []" and sp: "\<not> is_space (last (content t))"
    and mp: "minute_precision (timestamp t)"
    by (simp_all add: roundtrip_task_def)
  have s0: "strip (lines ! i) = lines ! i"
    unfolding l0 by (intro strip_id) (simp_all add: not_space_chars)
  from c sp have s1: "strip (lines ! (Suc i)) = lines ! (Suc i)"
    unfolding l1 by (intro strip_id) (simp_all add: not_space_chars)
  from strftime_shape [OF mp] have sh: "re_match timestamp_group (strftime (timestamp t))"
    and len: "length (strftime (timestamp t)) = 20" by simp_all
  have m: "re_match journelly_pattern (lines ! i)"
    unfolding l0 journelly_pattern_def
    using sh len by (simp add: lits_def re_match_append length_timestamp_group)
  have g: "take 20 (drop 3 (lines ! i)) = strftime (timestamp t)"
    unfolding l0 using len by simp
  have h: "startswith (lines ! (Suc i)) ''- [ ] '' = (\<not> is_completed t)"
    "startswith (lines ! (Suc i)) ''- [X] '' = is_completed t"
    "drop 6 (lines ! (Suc i)) = content t"
    unfolding l1 by (simp_all add: startswith_def)
  show ?thesis
    unfolding s0
    by (simp add: parse_journelly_task_from_line_def h i s1 m g strptime_strftime [OF mp]
          Let_def)
qed

subsection \<open>The written lines, read back\<close>

lemma beorg_loop_format:
  "\<forall>t\<in>set T. roundtrip_task t \<Longrightarrow>
   beorg_loop (pre @ beorg_format_tasks T) (length pre) = (T, [])"
proof (induction T arbitrary: pre)
  case Nil
  show ?case by (simp add: beorg_format_tasks_def beorg_loop_end)
next
  case (Cons t T)
  let ?h = "''* '' @ (if is_completed t then ''DONE'' else ''TODO'') @ '' '' @ content t"
  let ?s = "''['' @ strftime (timestamp t) @ '']''"
  let ?ls = "pre @ beorg_format_tasks (t # T)"
  have ls: "?ls = pre @ ?h # ?s # beorg_format_tasks T"
    by (simp add: beorg_format_tasks_def beorg_format_task_def)
  have ls': "?ls = (pre @ [?h, ?s]) @ beorg_format_tasks T"
    by (simp add: ls)
  from Cons.prems have rt: "roundtrip_task t" and rest: "\<forall>t\<in>set T. roundtrip_task t"
    by simp_all
  have i: "Suc (length pre) < length ?ls" by (simp add: ls)
  have l0: "?ls ! length pre = ?h" by (simp add: ls)
  have l1: "?ls ! (Suc (length pre)) = ?s" by (simp add: ls nth_append)
  have e: "parse_task_from_line (strip (?ls ! length pre)) ?ls (length pre) = (Some t, 1, [])"
    using rt i l0 l1 by (rule beorg_entry_roundtrip)
  have "beorg_loop ?ls (length (pre @ [?h, ?s])) = (T, [])"
    unfolding ls' using rest by (rule Cons.IH)
  then have r: "beorg_loop ?ls (Suc (Suc (length pre))) = (T, [])" by simp
  have i': "length pre < length ?ls" by (simp add: ls)
  from beorg_loop_eval [OF i' e] r show ?case by simp
qed

lemma journelly_loop_format:
  "\<forall>t\<in>set T. roundtrip_task t \<Longrightarrow>
   journelly_loop (pre @ journelly_format_tasks T) (length pre) = (T, [])"
proof (induction T arbitrary: pre)
  case Nil
  show ?case by (simp add: journelly_format_tasks_def journelly_loop_end)
next
  case (Cons t T)
  let ?h = "''* ['' @ strftime (timestamp t) @ ''] @ -''"
  let ?s = "''- '' @ (if is_completed t then ''[X]'' else ''[ ]'') @ '' '' @ content t"
  let ?ls = "pre @ journelly_format_tasks (t # T)"
  have ls: "?ls = pre @ ?h # ?s # journelly_format_tasks T"
    by (simp add: journelly_format_tasks_def journelly_format_task_def)
  have ls': "?ls = (pre @ [?h, ?s]) @ journelly_format_tasks T"
    by (simp add: ls)
  from Cons.prems have rt: "roundtrip_task t" and rest: "\<forall>t\<in>set T. roundtrip_task t"
    by simp_all
  have i: "Suc (length pre) < length ?ls" by (simp add: ls)
  have l0: "?ls ! length pre = ?h" by (simp add: ls)
  have l1: "?ls ! (Suc (length pre)) = ?s" by (simp add: ls nth_append)
  have e: "parse_journelly_task_from_line (strip (?ls ! length pre)) ?ls (length pre)
             = (Some t, 1, [])"
    using rt i l0 l1 by (rule journelly_entry_roundtrip)
  have "journelly_loop ?ls (length (pre @ [?h, ?s])) = (T, [])"
    unfolding ls' using rest by (rule Cons.IH)
  then have r: "journelly_loop ?ls (Suc (Suc (length pre))) = (T, [])" by simp
  have i': "length pre < length ?ls" by (simp add: ls)
  from journelly_loop_eval [OF i' e] r show ?case by simp
qed

subsection \<open>The written text, read back\<close>

lemma text_of_lines:
  assumes "ls \<noteq> []"
    and "\<forall>l\<in>set ls. l \<noteq> [] \<and> newline \<notin> set l \<and> \<not> is_space (hd l) \<and> \<not> is_space (last l)"
  shows "split_nl (strip (join_nl ls @ [newline])) = ls \<and> split_nl (strip (join_nl ls)) = ls"
proof -
  from assms have "hd ls \<in> set ls" and "last ls \<in> set ls" by simp_all
  with assms(2) have "\<not> is_space (hd (hd ls))" and "\<not> is_space (last (last ls))" by blast+
  moreover from assms have "join_nl ls \<noteq> [] \<and> hd (join_nl ls) = hd (hd ls)
      \<and> last (join_nl ls) = last (last ls)"
    by (intro join_nl_hd_last) auto
  ultimately have "strip (join_nl ls @ [newline]) = join_nl ls" and "strip (join_nl ls) = join_nl ls"
    by (simp_all add: strip_trailing_newline strip_id)
  moreover from assms have "split_nl (join_nl ls) = ls" by (intro split_join) auto
  ultimately show ?thesis by simp
qed

lemma beorg_lines_ok:
  assumes "\<forall>t\<in>set T. roundtrip_task t"
  shows "\<forall>l\<in>set (beorg_format_tasks T).
           l \<noteq> [] \<and> newline \<notin> set l \<and> \<not> is_space (hd l) \<and> \<not> is_space (last l)"
proof
  fix l assume "l \<in> set (beorg_format_tasks T)"
  then obtain t where t: "t \<in> set T" and l: "l \<in> set (beorg_format_task t)"
    by (auto simp: beorg_format_tasks_def)
  from t assms have c: "content t \<noteq> []" "newline \<notin> set (content t)"
    "\<not> is_space (last (content t))" and mp: "minute_precision (timestamp t)"
    by (auto simp: roundtrip_task_def)
  from strftime_shape [OF mp] have n: "newline \<notin> set (strftime (timestamp t))" by simp
  from l c n show "l \<noteq> [] \<and> newline \<notin> set l \<and> \<not> is_space (hd l) \<and> \<not> is_space (last l)"
    by (auto simp: beorg_format_task_def not_space_chars newline_def split: if_splits)
qed

lemma journelly_lines_ok:
  assumes "\<forall>t\<in>set T. roundtrip_task t"
  shows "\<forall>l\<in>set (journelly_format_tasks T).
           l \<noteq> [] \<and> newline \<notin> set l \<and> \<not> is_space (hd l) \<and> \<not> is_space (last l)"
proof
  fix l assume "l \<in> set (journelly_format_tasks T)"
  then obtain t where t: "t \<in> set T" and l: "l \<in> set (journelly_format_task t)"
    by (auto simp: journelly_format_tasks_def)
  from t assms have c: "content t \<noteq> []" "newline \<notin> set (content t)"
    "\<not> is_space (last (content t))" and mp: "minute_precision (timestamp t)"
    by (auto simp: roundtrip_task_def)
  from strftime_shape [OF mp] have n: "newline \<notin> set (strftime (timestamp t))" by simp
  from l c n show "l \<noteq> [] \<and> newline \<notin> set l \<and> \<not> is_space (hd l) \<and> \<not> is_space (last l)"
    by (auto simp: journelly_format_task_def not_space_chars newline_def split: if_splits)
qed

lemma format_empty_iff:
  "beorg_format_tasks T = [] \<longleftrightarrow> T = []" "journelly_format_tasks T = [] \<longleftrightarrow> T = []"
  by (cases T; simp add: beorg_format_tasks_def beorg_format_task_def
        journelly_format_tasks_def journelly_format_task_def)+

lemma parse_empty: "beorg_parse_tasks [] = ([], [])" "journelly_parse_tasks [] = ([], [])"
  by code_simp+

lemma beorg_parse_format:
  assumes "\<forall>t\<in>set T. roundtrip_task t"
  shows "beorg_parse_tasks (join_nl (beorg_format_tasks T)
           @ (if beorg_format_tasks T \<noteq> [] then [newline] else [])) = (T, [])"
proof (cases "T = []")
  case True
  then show ?thesis by (simp add: beorg_format_tasks_def parse_empty)
next
  case False
  then have ne: "beorg_format_tasks T \<noteq> []" by (simp add: format_empty_iff)
  from text_of_lines [OF ne beorg_lines_ok [OF assms]]
  have "split_nl (strip (join_nl (beorg_format_tasks T) @ [newline])) = beorg_format_tasks T"
    by simp
  moreover from beorg_loop_format [OF assms, of "[]"]
  have "beorg_loop (beorg_format_tasks T) 0 = (T, [])" by simp
  ultimately show ?thesis using ne by (simp add: beorg_parse_tasks_def)
qed

lemma journelly_parse_format:
  assumes "\<forall>t\<in>set T. roundtrip_task t"
  shows "journelly_parse_tasks (join_nl (journelly_format_tasks T)
           @ (if journelly_format_tasks T \<noteq> [] then [newline] else [])) = (T, [])"
proof (cases "T = []")
  case True
  then show ?thesis by (simp add: journelly_format_tasks_def parse_empty)
next
  case False
  then have ne: "journelly_format_tasks T \<noteq> []" by (simp add: format_empty_iff)
  from text_of_lines [OF ne journelly_lines_ok [OF assms]]
  have "split_nl (strip (join_nl (journelly_format_tasks T) @ [newline]))
          = journelly_format_tasks T"
    by simp
  moreover from journelly_loop_format [OF assms, of "[]"]
  have "journelly_loop (journelly_format_tasks T) 0 = (T, [])" by simp
  ultimately show ?thesis using ne by (simp add: journelly_parse_tasks_def)
qed

lemma mset_insert_desc: "mset (insert_desc t us) = add_mset t (mset us)"
  by (induction us) auto

lemma mset_sorted_desc: "mset (sorted_desc T) = mset T"
  by (induction T) (auto simp: sorted_desc_def mset_insert_desc)

lemma set_sorted_desc: "set (sorted_desc T) = set T"
  using mset_sorted_desc [of T] by (metis set_mset_mset)

text \<open>
  C3, amended: for every collection of tasks whose contents are not empty, hold no line
  feed and do not end in white space, and whose timestamps are dates and times of minute
  precision with a four-digit year, the text that \<^verbatim>\<open>write_file\<close> writes is parsed back,
  with no warning, to the same tasks in the written order (latest first), so to the same
  multiset of tasks; the lines of \<^verbatim>\<open>_format_tasks\<close>, joined, are parsed back to the very
  list. This holds for the BeOrg format and for the Journelly format.
\<close>

theorem format_parse_roundtrip:
  assumes "\<forall>t\<in>set T. roundtrip_task t"
  shows "beorg_parse_tasks (written_text beorg_format_tasks T) = (sorted_desc T, [])
       \<and> journelly_parse_tasks (written_text journelly_format_tasks T) = (sorted_desc T, [])
       \<and> mset (fst (beorg_parse_tasks (written_text beorg_format_tasks T))) = mset T
       \<and> mset (fst (journelly_parse_tasks (written_text journelly_format_tasks T))) = mset T
       \<and> beorg_parse_tasks (join_nl (beorg_format_tasks T)) = (T, [])
       \<and> journelly_parse_tasks (join_nl (journelly_format_tasks T)) = (T, [])"
proof -
  from assms have s: "\<forall>t\<in>set (sorted_desc T). roundtrip_task t"
    by (simp add: set_sorted_desc)
  have b: "beorg_parse_tasks (written_text beorg_format_tasks T) = (sorted_desc T, [])"
    using beorg_parse_format [OF s] by (simp add: written_text_def Let_def)
  have j: "journelly_parse_tasks (written_text journelly_format_tasks T) = (sorted_desc T, [])"
    using journelly_parse_format [OF s] by (simp add: written_text_def Let_def)
  have b': "beorg_parse_tasks (join_nl (beorg_format_tasks T)) = (T, [])"
  proof (cases "T = []")
    case True
    then show ?thesis by (simp add: beorg_format_tasks_def parse_empty)
  next
    case False
    then have ne: "beorg_format_tasks T \<noteq> []" by (simp add: format_empty_iff)
    from text_of_lines [OF ne beorg_lines_ok [OF assms]] beorg_loop_format [OF assms, of "[]"]
    show ?thesis by (simp add: beorg_parse_tasks_def)
  qed
  have j': "journelly_parse_tasks (join_nl (journelly_format_tasks T)) = (T, [])"
  proof (cases "T = []")
    case True
    then show ?thesis by (simp add: journelly_format_tasks_def parse_empty)
  next
    case False
    then have ne: "journelly_format_tasks T \<noteq> []" by (simp add: format_empty_iff)
    from text_of_lines [OF ne journelly_lines_ok [OF assms]]
      journelly_loop_format [OF assms, of "[]"]
    show ?thesis by (simp add: journelly_parse_tasks_def)
  qed
  from b j b' j' show ?thesis by (simp add: mset_sorted_desc)
qed

lemmas strftime_eval = weekday_def toordinal_def days_before_year_def
  days_before_month_def days_in_month_def is_leap_def day_abbr_def pad2_def decimal.simps
  digit_char_def

lemmas written_eval = written_text_def sorted_desc_def beorg_format_tasks_def
  beorg_format_task_def journelly_format_tasks_def journelly_format_task_def Let_def
  dt_less_def dt_key_def

text \<open>
  C3, as stated, fails: a task whose content ends in a blank comes back without the blank,
  in either format.
\<close>

theorem roundtrip_trailing_blank_counterexample:
  "distinct (map content [\<lparr>content = ''Buy milk '', timestamp = mk_datetime 2024 1 1 10 0,
                            is_completed = False\<rparr>])
   \<and> fst (beorg_parse_tasks (written_text beorg_format_tasks
        [\<lparr>content = ''Buy milk '', timestamp = mk_datetime 2024 1 1 10 0,
          is_completed = False\<rparr>]))
       = [\<lparr>content = ''Buy milk'', timestamp = mk_datetime 2024 1 1 10 0,
            is_completed = False\<rparr>]
   \<and> mset (fst (beorg_parse_tasks (written_text beorg_format_tasks
        [\<lparr>content = ''Buy milk '', timestamp = mk_datetime 2024 1 1 10 0,
          is_completed = False\<rparr>])))
       \<noteq> mset [\<lparr>content = ''Buy milk '', timestamp = mk_datetime 2024 1 1 10 0,
                 is_completed = False\<rparr>]
   \<and> fst (journelly_parse_tasks (written_text journelly_format_tasks
        [\<lparr>content = ''Buy milk '', timestamp = mk_datetime 2024 1 1 10 0,
          is_completed = False\<rparr>]))
       = [\<lparr>content = ''Buy milk'', timestamp = mk_datetime 2024 1 1 10 0,
            is_completed = False\<rparr>]
   \<and> mset (fst (journelly_parse_tasks (written_text journelly_format_tasks
        [\<lparr>content = ''Buy milk '', timestamp = mk_datetime 2024 1 1 10 0,
          is_completed = False\<rparr>])))
       \<noteq> mset [\<lparr>content = ''Buy milk '', timestamp = mk_datetime 2024 1 1 10 0,
                 is_completed = False\<rparr>]"
proof -
  let ?t = "\<lparr>content = ''Buy milk '', timestamp = mk_datetime 2024 1 1 10 0,
             is_completed = False\<rparr>"
  have f: "strftime (mk_datetime 2024 1 1 10 0) = ''2024-01-01 Mon 10:00''"
    unfolding strftime_def mk_datetime_def by (simp add: strftime_eval)
  have b: "written_text beorg_format_tasks [?t]
             = join_nl [''* TODO Buy milk '', ''[2024-01-01 Mon 10:00]''] @ [newline]"
    by (simp add: written_eval f del: One_nat_def)
  have j: "written_text journelly_format_tasks [?t]
             = join_nl [''* [2024-01-01 Mon 10:00] @ -'', ''- [ ] Buy milk ''] @ [newline]"
    by (simp add: written_eval f del: One_nat_def)
  have pb: "fst (beorg_parse_tasks
              (join_nl [''* TODO Buy milk '', ''[2024-01-01 Mon 10:00]''] @ [newline]))
            = [\<lparr>content = ''Buy milk'', timestamp = mk_datetime 2024 1 1 10 0,
                 is_completed = False\<rparr>]"
    by code_simp
  have pj: "fst (journelly_parse_tasks
              (join_nl [''* [2024-01-01 Mon 10:00] @ -'', ''- [ ] Buy milk ''] @ [newline]))
            = [\<lparr>content = ''Buy milk'', timestamp = mk_datetime 2024 1 1 10 0,
                 is_completed = False\<rparr>]"
    by code_simp
  show ?thesis by (simp only: b j pb pj) simp
qed

text \<open>C3, amended, at the first four tasks of the repository's parser tests.\<close>

theorem format_parse_roundtrip_witness:
  "list_all roundtrip_task test_tasks
   \<and> beorg_parse_tasks (written_text beorg_format_tasks test_tasks) = (rev test_tasks, [])
   \<and> journelly_parse_tasks (written_text journelly_format_tasks test_tasks)
       = (rev test_tasks, [])
   \<and> beorg_parse_tasks (join_nl (beorg_format_tasks test_tasks)) = (test_tasks, [])
   \<and> journelly_parse_tasks (join_nl (journelly_format_tasks test_tasks)) = (test_tasks, [])"
proof -
  have h: "list_all roundtrip_task test_tasks"
    by (simp add: test_tasks_def roundtrip_task_def minute_precision_def valid_datetime_def
          mk_datetime_def days_in_month_def is_leap_def newline_def is_space_def code_def)
  then have h': "\<forall>t\<in>set test_tasks. roundtrip_task t" by (simp add: list_all_iff)
  have s: "sorted_desc test_tasks = rev test_tasks"
    by (simp add: test_tasks_def sorted_desc_def dt_less_def dt_key_def mk_datetime_def)
  from format_parse_roundtrip [OF h'] h s show ?thesis by simp
qed

section \<open>The day-of-week token of a timestamp\<close>

lemma is_word_not_space: "is_word c \<Longrightarrow> \<not> is_space c"
  by (auto simp: is_word_def is_space_def is_digit_def code_def)

lemma weekday_name_chars:
  assumes "is_weekday_name d"
  shows "\<exists>a b c. d = [a, b, c] \<and> is_word a \<and> is_word b \<and> is_word c"
proof -
  from weekday_name_shape [OF assms] have "length d = 3" and w: "list_all is_word d" by simp_all
  then obtain a b c where "d = [a, b, c]" by (auto simp: length_Suc_conv eval_nat_numeral)
  with w show ?thesis by simp
qed

lemma strip_decomp:
  assumes ws: "\<forall>c\<in>set ws. is_space c" and x: "x \<noteq> []" "\<not> is_space (hd x)"
    and d: "d \<noteq> []" "\<not> is_space (last d)"
  shows "strip (ws @ x @ d @ post) = x @ d @ rev (dropWhile is_space (rev post))"
proof -
  from ws have "dropWhile is_space (ws @ x @ d @ post) = dropWhile is_space (x @ d @ post)"
    by (simp add: dropWhile_append2)
  also from x have "\<dots> = x @ d @ post" by (cases x) auto
  finally have a: "dropWhile is_space (ws @ x @ d @ post) = x @ d @ post" .
  from d obtain d' c where dc: "d = d' @ [c]" and c: "\<not> is_space c"
    by (metis append_butlast_last_id)
  have "rev (x @ d @ post) = rev post @ c # (rev d' @ rev x)" by (simp add: dc)
  moreover have "dropWhile is_space (rev post @ c # (rev d' @ rev x))
          = dropWhile is_space (rev post) @ c # (rev d' @ rev x)"
    using c by (rule dropWhile_append3)
  ultimately have "dropWhile is_space (rev (x @ d @ post))
          = dropWhile is_space (rev post) @ c # (rev d' @ rev x)"
    by (simp only:)
  then have "rev (dropWhile is_space (rev (x @ d @ post)))
          = x @ d @ rev (dropWhile is_space (rev post))"
    by (simp add: dc)
  with a show ?thesis by (simp only: strip_def)
qed

lemma weekday_variant_decomp:
  assumes "weekday_variant p l1 l2" and p: "p \<noteq> []" "\<not> is_space (hd p)"
  shows "\<exists>x d1 d2 y. strip l1 = p @ x @ d1 @ y \<and> strip l2 = p @ x @ d2 @ y \<and> length x = 11
           \<and> is_weekday_name d1 \<and> is_weekday_name d2"
proof -
  let ?ws = "takeWhile is_space l1"
  let ?n = "length ?ws"
  let ?k = "?n + length p + 11"
  let ?d1 = "take 3 (drop ?k l1)"
  let ?d2 = "take 3 (drop ?k l2)"
  let ?post = "drop (?k + 3) l1"
  from assms(1) have sw: "startswith (dropWhile is_space l1) p" and len: "?k + 3 \<le> length l1"
    and len2: "length l2 = length l1" and t: "take ?k l2 = take ?k l1"
    and dr: "drop (?k + 3) l2 = ?post" and w1: "is_weekday_name ?d1"
    and w2: "is_weekday_name ?d2"
    by (simp_all add: weekday_variant_def Let_def)
  have dw: "dropWhile is_space l1 = drop ?n l1" by (simp add: dropWhile_eq_drop)
  let ?x = "take 11 (drop (?n + length p) l1)"
  from sw dw have pp: "take (length p) (drop ?n l1) = p" by (simp add: startswith_def)
  have pre: "take ?k l1 = ?ws @ p @ ?x"
  proof -
    have "take ?k l1 = take ?n l1 @ take (length p + 11) (drop ?n l1)"
      by (simp add: take_add add.assoc)
    also have "take ?n l1 = ?ws" by (simp add: takeWhile_eq_take [symmetric])
    also have "take (length p + 11) (drop ?n l1)
                 = take (length p) (drop ?n l1) @ take 11 (drop (length p) (drop ?n l1))"
      by (simp add: take_add)
    finally show ?thesis by (simp add: pp add.commute)
  qed
  have s1: "l1 = take ?k l1 @ ?d1 @ ?post"
    by (metis append_take_drop_id drop_drop add.commute)
  have s2: "l2 = take ?k l2 @ ?d2 @ drop (?k + 3) l2"
    by (metis append_take_drop_id drop_drop add.commute)
  from s1 pre have e1: "l1 = ?ws @ (p @ ?x) @ ?d1 @ ?post" by simp
  from s2 t dr pre have e2: "l2 = ?ws @ (p @ ?x) @ ?d2 @ ?post" by simp
  have ws: "\<forall>c\<in>set ?ws. is_space c" by (auto dest: set_takeWhileD)
  from p have px: "p @ ?x \<noteq> []" "\<not> is_space (hd (p @ ?x))" by simp_all
  from weekday_name_chars [OF w1] have n1: "?d1 \<noteq> []" "\<not> is_space (last ?d1)"
    by (auto simp: is_word_not_space)
  from weekday_name_chars [OF w2] have n2: "?d2 \<noteq> []" "\<not> is_space (last ?d2)"
    by (auto simp: is_word_not_space)
  let ?y = "rev (dropWhile is_space (rev ?post))"
  have "strip l1 = (p @ ?x) @ ?d1 @ ?y"
    by (subst e1) (rule strip_decomp [OF ws px n1])
  then have A: "strip l1 = p @ ?x @ ?d1 @ ?y" by (simp only: append_assoc)
  have "strip l2 = (p @ ?x) @ ?d2 @ ?y"
    by (subst e2) (rule strip_decomp [OF ws px n2])
  then have B: "strip l2 = p @ ?x @ ?d2 @ ?y" by (simp only: append_assoc)
  from len have C: "length ?x = 11" by simp
  show ?thesis
    by (intro exI [of _ ?x] exI [of _ ?d1] exI [of _ ?d2] exI [of _ ?y] conjI)
       (fact A B C w1 w2)+
qed

lemma length_11:
  assumes "length x = 11"
  shows "\<exists>x0 x1 x2 x3 x4 x5 x6 x7 x8 x9 x10. x = [x0, x1, x2, x3, x4, x5, x6, x7, x8, x9, x10]"
  using assms by (auto simp: length_Suc_conv eval_nat_numeral)

lemma strptime_weekday:
  assumes "length x = 11" and "is_weekday_name d1" and "is_weekday_name d2"
  shows "strptime (take 20 (x @ d1 @ y)) = strptime (take 20 (x @ d2 @ y))"
proof -
  from length_11 [OF assms(1)] obtain x0 x1 x2 x3 x4 x5 x6 x7 x8 x9 x10
    where x: "x = [x0, x1, x2, x3, x4, x5, x6, x7, x8, x9, x10]" by blast
  from weekday_name_chars [OF assms(2)] obtain a b c
    where d1: "d1 = [a, b, c]" and w1: "is_word a" "is_word b" "is_word c" by blast
  from weekday_name_chars [OF assms(3)] obtain a' b' c'
    where d2: "d2 = [a', b', c']" and w2: "is_word a'" "is_word b'" "is_word c'" by blast
  from assms(2) d1 have n1: "is_weekday_name [a, b, c]" by simp
  from assms(3) d2 have n2: "is_weekday_name [a', b', c']" by simp
  show ?thesis
    unfolding x d1 d2
    by (simp add: strptime_def timestamp_group_def Let_def w1 w2 n1 n2)
qed

lemma beorg_variant_view:
  assumes "weekday_variant ''['' l1 l2"
  shows "\<not> beorg_header (strip l1) \<and> \<not> beorg_header (strip l2)
       \<and> re_match beorg_pattern (strip l1) = re_match beorg_pattern (strip l2)
       \<and> strptime (take 20 (drop 1 (strip l1))) = strptime (take 20 (drop 1 (strip l2)))"
proof -
  from weekday_variant_decomp [OF assms] obtain x d1 d2 y
    where s1: "strip l1 = ''['' @ x @ d1 @ y" and s2: "strip l2 = ''['' @ x @ d2 @ y"
      and lx: "length x = 11" and n1: "is_weekday_name d1" and n2: "is_weekday_name d2"
    by (auto simp: is_space_def code_def)
  from length_11 [OF lx] obtain x0 x1 x2 x3 x4 x5 x6 x7 x8 x9 x10
    where x: "x = [x0, x1, x2, x3, x4, x5, x6, x7, x8, x9, x10]" by blast
  from weekday_name_chars [OF n1] obtain a b c
    where d1: "d1 = [a, b, c]" and w1: "is_word a" "is_word b" "is_word c" by blast
  from weekday_name_chars [OF n2] obtain a' b' c'
    where d2: "d2 = [a', b', c']" and w2: "is_word a'" "is_word b'" "is_word c'" by blast
  have h: "\<not> beorg_header (strip l1) \<and> \<not> beorg_header (strip l2)"
    unfolding s1 s2 by (simp add: beorg_header_def startswith_def)
  have m: "re_match beorg_pattern (strip l1) = re_match beorg_pattern (strip l2)"
    unfolding s1 s2 x d1 d2
    by (simp add: beorg_pattern_def timestamp_group_def lits_def w1 w2)
  have t: "strptime (take 20 (drop 1 (strip l1))) = strptime (take 20 (drop 1 (strip l2)))"
    unfolding s1 s2 using strptime_weekday [OF lx n1 n2, of y] by simp
  from h m t show ?thesis by blast
qed

lemma journelly_variant_view:
  assumes "weekday_variant ''* ['' l1 l2"
  shows "re_match journelly_pattern (strip l1) = re_match journelly_pattern (strip l2)
       \<and> strptime (take 20 (drop 3 (strip l1))) = strptime (take 20 (drop 3 (strip l2)))
       \<and> \<not> startswith (strip l1) ''- [ ] '' \<and> \<not> startswith (strip l1) ''- [X] ''
       \<and> \<not> startswith (strip l2) ''- [ ] '' \<and> \<not> startswith (strip l2) ''- [X] ''"
proof -
  from weekday_variant_decomp [OF assms] obtain x d1 d2 y
    where s1: "strip l1 = ''* ['' @ x @ d1 @ y" and s2: "strip l2 = ''* ['' @ x @ d2 @ y"
      and lx: "length x = 11" and n1: "is_weekday_name d1" and n2: "is_weekday_name d2"
    by (auto simp: is_space_def code_def)
  from length_11 [OF lx] obtain x0 x1 x2 x3 x4 x5 x6 x7 x8 x9 x10
    where x: "x = [x0, x1, x2, x3, x4, x5, x6, x7, x8, x9, x10]" by blast
  from weekday_name_chars [OF n1] obtain a b c
    where d1: "d1 = [a, b, c]" and w1: "is_word a" "is_word b" "is_word c" by blast
  from weekday_name_chars [OF n2] obtain a' b' c'
    where d2: "d2 = [a', b', c']" and w2: "is_word a'" "is_word b'" "is_word c'" by blast
  have h: "\<not> startswith (strip l1) ''- [ ] '' \<and> \<not> startswith (strip l1) ''- [X] ''
       \<and> \<not> startswith (strip l2) ''- [ ] '' \<and> \<not> startswith (strip l2) ''- [X] ''"
    unfolding s1 s2 by (simp add: startswith_def)
  have m: "re_match journelly_pattern (strip l1) = re_match journelly_pattern (strip l2)"
    unfolding s1 s2 x d1 d2
    by (simp add: journelly_pattern_def timestamp_group_def lits_def w1 w2)
  have t: "strptime (take 20 (drop 3 (strip l1))) = strptime (take 20 (drop 3 (strip l2)))"
    unfolding s1 s2 using strptime_weekday [OF lx n1 n2, of y] by simp
  from h m t show ?thesis by blast
qed

lemma beorg_entry_task:
  "fst (parse_task_from_line line lines i)
     = (if beorg_header line \<and> Suc i < length lines
           \<and> re_match beorg_pattern (strip (lines ! Suc i))
        then map_option
               (\<lambda>ts. \<lparr>content = drop 7 line, timestamp = ts,
                      is_completed = startswith line ''* DONE ''\<rparr>)
               (strptime (take 20 (drop 1 (strip (lines ! Suc i)))))
        else None)"
  by (simp add: parse_task_from_line_def parse_beorg_timestamp_and_create_task_def
        beorg_header_def Let_def split: option.splits)

lemma beorg_entry_consumed:
  "fst (snd (parse_task_from_line line lines i))
     = (if fst (parse_task_from_line line lines i) = None then 0 else 1)"
  by (simp add: parse_task_from_line_def parse_beorg_timestamp_and_create_task_def
        Let_def split: option.splits)

lemma journelly_entry_task:
  "fst (parse_journelly_task_from_line line lines i)
     = (if re_match journelly_pattern line \<and> Suc i < length lines
           \<and> (startswith (strip (lines ! Suc i)) ''- [ ] ''
                \<or> startswith (strip (lines ! Suc i)) ''- [X] '')
        then map_option
               (\<lambda>ts. \<lparr>content = drop 6 (strip (lines ! Suc i)), timestamp = ts,
                      is_completed = startswith (strip (lines ! Suc i)) ''- [X] ''\<rparr>)
               (strptime (take 20 (drop 3 line)))
        else None)"
  by (simp add: parse_journelly_task_from_line_def Let_def split: option.splits)

lemma journelly_entry_consumed:
  "fst (snd (parse_journelly_task_from_line line lines i))
     = (if fst (parse_journelly_task_from_line line lines i) = None then 0 else 1)"
  by (simp add: parse_journelly_task_from_line_def Let_def split: option.splits)

lemma beorg_entry_same:
  assumes r: "list_all2 (same_but_weekday ''['') ls1 ls2" and i: "i < length ls1"
  shows "fst (parse_task_from_line (strip (ls1 ! i)) ls1 i)
           = fst (parse_task_from_line (strip (ls2 ! i)) ls2 i)"
proof -
  from r have len: "length ls1 = length ls2" by (rule list_all2_lengthD)
  from r i have ri: "same_but_weekday ''['' (ls1 ! i) (ls2 ! i)" by (rule list_all2_nthD)
  show ?thesis
  proof (cases "weekday_variant ''['' (ls1 ! i) (ls2 ! i)")
    case True
    from beorg_variant_view [OF True]
    have "\<not> beorg_header (strip (ls1 ! i))" and "\<not> beorg_header (strip (ls2 ! i))"
      by simp_all
    then show ?thesis by (simp only: beorg_entry_task) simp
  next
    case False
    with ri have e: "ls1 ! i = ls2 ! i" by (simp add: same_but_weekday_def)
    show ?thesis
    proof (cases "Suc i < length ls1")
      case True
      with r have rn: "same_but_weekday ''['' (ls1 ! Suc i) (ls2 ! Suc i)"
        by (rule list_all2_nthD)
      have "re_match beorg_pattern (strip (ls1 ! Suc i))
              = re_match beorg_pattern (strip (ls2 ! Suc i))"
        and "strptime (take 20 (drop 1 (strip (ls1 ! Suc i))))
              = strptime (take 20 (drop 1 (strip (ls2 ! Suc i))))"
        using rn beorg_variant_view [of "ls1 ! Suc i" "ls2 ! Suc i"]
        by (auto simp: same_but_weekday_def)
      then show ?thesis by (simp only: beorg_entry_task e len)
    next
      case False
      then have "\<not> Suc i < length ls2" by (simp add: len)
      with False show ?thesis by (simp only: beorg_entry_task) simp
    qed
  qed
qed

lemma beorg_loop_same:
  assumes "list_all2 (same_but_weekday ''['') ls1 ls2"
  shows "fst (beorg_loop ls1 i) = fst (beorg_loop ls2 i)"
proof (induction "length ls1 - i" arbitrary: i rule: less_induct)
  case less
  from assms have len: "length ls2 = length ls1" by (simp add: list_all2_lengthD)
  show ?case
  proof (cases "i < length ls1")
    case False
    with len show ?thesis by (simp add: beorg_loop_end)
  next
    case True
    let ?r1 = "parse_task_from_line (strip (ls1 ! i)) ls1 i"
    let ?r2 = "parse_task_from_line (strip (ls2 ! i)) ls2 i"
    have t: "fst ?r1 = fst ?r2" using assms True by (rule beorg_entry_same)
    then have n: "fst (snd ?r1) = fst (snd ?r2)" by (simp only: beorg_entry_consumed)
    from True have "length ls1 - (i + 1 + fst (snd ?r1)) < length ls1 - i" by simp
    then have "fst (beorg_loop ls1 (i + 1 + fst (snd ?r1)))
                 = fst (beorg_loop ls2 (i + 1 + fst (snd ?r1)))"
      by (rule less)
    then have ih: "fst (beorg_loop ls1 (i + 1 + fst (snd ?r1)))
                 = fst (beorg_loop ls2 (i + 1 + fst (snd ?r2)))"
      by (simp only: n)
    from True len have i2: "i < length ls2" by simp
    have "fst (beorg_loop ls1 i)
            = (case fst ?r1 of Some task \<Rightarrow> [task] | None \<Rightarrow> [])
              @ fst (beorg_loop ls1 (i + 1 + fst (snd ?r1)))"
      by (simp add: beorg_loop_step [OF True])
    moreover have "fst (beorg_loop ls2 i)
            = (case fst ?r2 of Some task \<Rightarrow> [task] | None \<Rightarrow> [])
              @ fst (beorg_loop ls2 (i + 1 + fst (snd ?r2)))"
      by (simp add: beorg_loop_step [OF i2])
    ultimately show ?thesis by (simp only: t ih)
  qed
qed

lemma journelly_entry_same:
  assumes r: "list_all2 (same_but_weekday ''* ['') ls1 ls2" and i: "i < length ls1"
  shows "fst (parse_journelly_task_from_line (strip (ls1 ! i)) ls1 i)
           = fst (parse_journelly_task_from_line (strip (ls2 ! i)) ls2 i)"
proof -
  from r have len: "length ls1 = length ls2" by (rule list_all2_lengthD)
  from r i have ri: "same_but_weekday ''* ['' (ls1 ! i) (ls2 ! i)" by (rule list_all2_nthD)
  have m: "re_match journelly_pattern (strip (ls1 ! i))
              = re_match journelly_pattern (strip (ls2 ! i))"
    and t: "strptime (take 20 (drop 3 (strip (ls1 ! i))))
              = strptime (take 20 (drop 3 (strip (ls2 ! i))))"
    using ri journelly_variant_view [of "ls1 ! i" "ls2 ! i"]
    by (auto simp: same_but_weekday_def)
  show ?thesis
  proof (cases "Suc i < length ls1")
    case False
    then have "\<not> Suc i < length ls2" by (simp add: len)
    with False show ?thesis by (simp only: journelly_entry_task) simp
  next
    case True
    with r have rn: "same_but_weekday ''* ['' (ls1 ! Suc i) (ls2 ! Suc i)"
      by (rule list_all2_nthD)
    show ?thesis
    proof (cases "weekday_variant ''* ['' (ls1 ! Suc i) (ls2 ! Suc i)")
      case True
      from journelly_variant_view [OF True]
      have "\<not> (startswith (strip (ls1 ! Suc i)) ''- [ ] ''
                \<or> startswith (strip (ls1 ! Suc i)) ''- [X] '')"
        and "\<not> (startswith (strip (ls2 ! Suc i)) ''- [ ] ''
                \<or> startswith (strip (ls2 ! Suc i)) ''- [X] '')"
        by simp_all
      then show ?thesis by (simp only: journelly_entry_task) simp
    next
      case False
      with rn have e: "ls1 ! Suc i = ls2 ! Suc i" by (simp add: same_but_weekday_def)
      show ?thesis by (simp only: journelly_entry_task e len m t)
    qed
  qed
qed

lemma journelly_loop_same:
  assumes "list_all2 (same_but_weekday ''* ['') ls1 ls2"
  shows "fst (journelly_loop ls1 i) = fst (journelly_loop ls2 i)"
proof (induction "length ls1 - i" arbitrary: i rule: less_induct)
  case less
  from assms have len: "length ls2 = length ls1" by (simp add: list_all2_lengthD)
  show ?case
  proof (cases "i < length ls1")
    case False
    with len show ?thesis by (simp add: journelly_loop_end)
  next
    case True
    let ?r1 = "parse_journelly_task_from_line (strip (ls1 ! i)) ls1 i"
    let ?r2 = "parse_journelly_task_from_line (strip (ls2 ! i)) ls2 i"
    have t: "fst ?r1 = fst ?r2" using assms True by (rule journelly_entry_same)
    then have n: "fst (snd ?r1) = fst (snd ?r2)" by (simp only: journelly_entry_consumed)
    from True have "length ls1 - (i + 1 + fst (snd ?r1)) < length ls1 - i" by simp
    then have "fst (journelly_loop ls1 (i + 1 + fst (snd ?r1)))
                 = fst (journelly_loop ls2 (i + 1 + fst (snd ?r1)))"
      by (rule less)
    then have ih: "fst (journelly_loop ls1 (i + 1 + fst (snd ?r1)))
                 = fst (journelly_loop ls2 (i + 1 + fst (snd ?r2)))"
      by (simp only: n)
    from True len have i2: "i < length ls2" by simp
    have "fst (journelly_loop ls1 i)
            = (case fst ?r1 of Some task \<Rightarrow> [task] | None \<Rightarrow> [])
              @ fst (journelly_loop ls1 (i + 1 + fst (snd ?r1)))"
      by (simp add: journelly_loop_step [OF True])
    moreover have "fst (journelly_loop ls2 i)
            = (case fst ?r2 of Some task \<Rightarrow> [task] | None \<Rightarrow> [])
              @ fst (journelly_loop ls2 (i + 1 + fst (snd ?r2)))"
      by (simp add: journelly_loop_step [OF i2])
    ultimately show ?thesis by (simp only: t ih)
  qed
qed

lemma is_digit_digit_char:
  assumes "is_digit c"
  shows "\<exists>k<10. c = digit_char k \<and> digit_val c = k"
proof -
  from assms have "c \<in> set ''0123456789''" by (simp only: is_digit_def)
  then consider "c = CHR ''0''" | "c = CHR ''1''" | "c = CHR ''2''" | "c = CHR ''3''"
    | "c = CHR ''4''" | "c = CHR ''5''" | "c = CHR ''6''" | "c = CHR ''7''"
    | "c = CHR ''8''" | "c = CHR ''9''"
    by auto
  then show ?thesis
  proof cases
    case 1 then show ?thesis by (intro exI [of _ 0]) (simp add: digit_char_def digit_val_def code_def)
  next
    case 2 then show ?thesis by (intro exI [of _ 1]) (simp add: digit_char_def digit_val_def code_def)
  next
    case 3 then show ?thesis by (intro exI [of _ 2]) (simp add: digit_char_def digit_val_def code_def)
  next
    case 4 then show ?thesis by (intro exI [of _ 3]) (simp add: digit_char_def digit_val_def code_def)
  next
    case 5 then show ?thesis by (intro exI [of _ 4]) (simp add: digit_char_def digit_val_def code_def)
  next
    case 6 then show ?thesis by (intro exI [of _ 5]) (simp add: digit_char_def digit_val_def code_def)
  next
    case 7 then show ?thesis by (intro exI [of _ 6]) (simp add: digit_char_def digit_val_def code_def)
  next
    case 8 then show ?thesis by (intro exI [of _ 7]) (simp add: digit_char_def digit_val_def code_def)
  next
    case 9 then show ?thesis by (intro exI [of _ 8]) (simp add: digit_char_def digit_val_def code_def)
  next
    case 10 then show ?thesis by (intro exI [of _ 9]) (simp add: digit_char_def digit_val_def code_def)
  qed
qed

lemma div_mod_10:
  assumes "d < (10::nat)"
  shows "(10 * q + d) div 10 = q" and "(10 * q + d) mod 10 = d"
  using assms by simp_all

lemma lt_step: "r < n \<Longrightarrow> c < (10::nat) \<Longrightarrow> 10 * r + c < 10 * n"
  by arith

lemma div_100: "(n::nat) div 100 = n div 10 div 10"
  by (simp add: div_mult2_eq [symmetric])

lemma div_1000: "(n::nat) div 1000 = n div 100 div 10"
  by (simp add: div_mult2_eq [symmetric])

lemma digits2_inv:
  assumes "a < 10" and "b < (10::nat)"
  shows "(10 * a + b) div 10 = a" and "(10 * a + b) mod 10 = b" and "10 * a + b < 100"
  using assms by simp_all

lemma pad2_digits:
  assumes "is_digit c1" and "is_digit c2"
  shows "pad2 (int_of_digits [c1, c2]) = [c1, c2]"
proof -
  from is_digit_digit_char [OF assms(1)] obtain a where a: "a < 10" "c1 = digit_char a" by blast
  from is_digit_digit_char [OF assms(2)] obtain b where b: "b < 10" "c2 = digit_char b" by blast
  have "int_of_digits [c1, c2] = 10 * a + b"
    unfolding a b by (rule int_of_digits_2 [OF a(1) b(1)])
  moreover have "pad2 (10 * a + b) = [digit_char a, digit_char b]"
    by (simp only: pad2_eq [OF digits2_inv(3) [OF a(1) b(1)]] digits2_inv(1,2) [OF a(1) b(1)])
  ultimately show ?thesis unfolding a(2) b(2) by (simp only:)
qed

lemma decimal_digits:
  assumes "is_digit c1" "is_digit c2" "is_digit c3" "is_digit c4"
    and "1000 \<le> int_of_digits [c1, c2, c3, c4]"
  shows "decimal (int_of_digits [c1, c2, c3, c4]) = [c1, c2, c3, c4]"
proof -
  from is_digit_digit_char [OF assms(1)] obtain a where a: "a < 10" "c1 = digit_char a" by blast
  from is_digit_digit_char [OF assms(2)] obtain b where b: "b < 10" "c2 = digit_char b" by blast
  from is_digit_digit_char [OF assms(3)] obtain c where c: "c < 10" "c3 = digit_char c" by blast
  from is_digit_digit_char [OF assms(4)] obtain d where d: "d < 10" "c4 = digit_char d" by blast
  let ?r = "10 * a + b"
  let ?q = "10 * ?r + c"
  let ?Y = "10 * ?q + d"
  have Y: "int_of_digits [c1, c2, c3, c4] = ?Y"
    unfolding a b c d by (rule int_of_digits_4 [OF a(1) b(1) c(1) d(1)])
  have q: "?Y div 10 = ?q" "?Y mod 10 = d" by (rule div_mod_10 [OF d(1)])+
  have r: "?q div 10 = ?r" "?q mod 10 = c" by (rule div_mod_10 [OF c(1)])+
  have s: "?r div 10 = a" "?r mod 10 = b" by (rule div_mod_10 [OF b(1)])+
  have d100: "?Y div 100 = ?r"
  proof -
    have "?Y div 100 = ?Y div 10 div 10" by (rule div_100)
    then show ?thesis by (simp only: q r)
  qed
  have d1000: "?Y div 1000 = a"
  proof -
    have "?Y div 1000 = ?Y div 100 div 10" by (rule div_1000)
    then show ?thesis by (simp only: d100 s)
  qed
  have r100: "?r < 10 * 10" by (rule lt_step [OF a(1) b(1)])
  have q1000: "?q < 10 * (10 * 10)" by (rule lt_step [OF r100 c(1)])
  have "?Y < 10 * (10 * (10 * 10))" by (rule lt_step [OF q1000 d(1)])
  then have lt: "?Y < 10000" by simp
  from assms(5) Y have ge: "1000 \<le> ?Y" by simp
  have "decimal ?Y = [digit_char a, digit_char b, digit_char c, digit_char d]"
    by (simp only: decimal_4 [OF ge lt] d1000 d100 s q r)
  then show ?thesis
    unfolding a(2) b(2) c(2) d(2) int_of_digits_4 [OF a(1) b(1) c(1) d(1)] .
qed

lemma length_9:
  assumes "length x = 9"
  shows "\<exists>x0 x1 x2 x3 x4 x5 x6 x7 x8. x = [x0, x1, x2, x3, x4, x5, x6, x7, x8]"
  using assms by (auto simp: length_Suc_conv eval_nat_numeral)

lemma strftime_strptime:
  assumes "strptime s = Some t" and "1000 \<le> year t"
  shows "strftime t = take 11 s @ day_abbr (weekday t) @ drop 14 s"
proof -
  from strptime_shape [OF assms(1)] have m: "re_match timestamp_group s" and len: "length s = 20"
    by simp_all
  from len have l11: "length (take 11 s) = 11" and l9: "length (drop 11 s) = 9" by simp_all
  from length_11 [OF l11] obtain x0 x1 x2 x3 x4 x5 x6 x7 x8 x9 x10
    where tk: "take 11 s = [x0, x1, x2, x3, x4, x5, x6, x7, x8, x9, x10]" by blast
  from length_9 [OF l9] obtain a b c y0 y1 y2 y3 y4 y5
    where dr: "drop 11 s = [a, b, c, y0, y1, y2, y3, y4, y5]" by blast
  from tk dr have "take 11 s @ drop 11 s
      = [x0, x1, x2, x3, x4, x5, x6, x7, x8, x9, x10, a, b, c, y0, y1, y2, y3, y4, y5]"
    by simp
  then have s: "s = [x0, x1, x2, x3, x4, x5, x6, x7, x8, x9, x10, a, b, c, y0, y1, y2, y3, y4, y5]"
    by (simp only: append_take_drop_id)
  from m have dg: "is_digit x0" "is_digit x1" "is_digit x2" "is_digit x3" "is_digit x5"
    "is_digit x6" "is_digit x8" "is_digit x9" "is_digit y1" "is_digit y2" "is_digit y4"
    "is_digit y5"
    and lit: "x4 = CHR ''-''" "x7 = CHR ''-''" "x10 = CHR '' ''" "y0 = CHR '' ''" "y3 = CHR '':''"
    unfolding s by (simp_all add: timestamp_group_def)
  from assms(1) have t: "t = mk_datetime (int_of_digits [x0, x1, x2, x3]) (int_of_digits [x5, x6])
      (int_of_digits [x8, x9]) (int_of_digits [y1, y2]) (int_of_digits [y4, y5])"
    unfolding s by (simp add: strptime_def Let_def split: if_splits)
  then have f: "year t = int_of_digits [x0, x1, x2, x3]" "month t = int_of_digits [x5, x6]"
    "day t = int_of_digits [x8, x9]" "hour t = int_of_digits [y1, y2]"
    "minute t = int_of_digits [y4, y5]"
    by (simp_all add: mk_datetime_def)
  from assms(2) have y: "1000 \<le> int_of_digits [x0, x1, x2, x3]" by (simp only: f)
  have "strftime t = [x0, x1, x2, x3] @ ''-'' @ [x5, x6] @ ''-'' @ [x8, x9] @ '' ''
      @ day_abbr (weekday t) @ '' '' @ [y1, y2] @ '':'' @ [y4, y5]"
    unfolding strftime_def f
    by (simp only: decimal_digits [OF dg(1-4) y] pad2_digits [OF dg(5,6)]
          pad2_digits [OF dg(7,8)] pad2_digits [OF dg(9,10)] pad2_digits [OF dg(11,12)])
  then show ?thesis unfolding s lit by simp
qed

lemma mod_400_100: "(n::nat) mod 400 = 0 \<Longrightarrow> n mod 100 = 0"
  by (metis dvd_eq_mod_eq_0 mod_mod_cancel mod_0 dvd_triv_right numeral_Bit0 mult.commute
       dvd_def mult_numeral_1 num_double numeral_times_numeral)

lemma mod_100_4: "(n::nat) mod 100 = 0 \<Longrightarrow> n mod 4 = 0"
proof -
  assume "n mod 100 = 0"
  then have "100 dvd n" by (simp only: dvd_eq_mod_eq_0)
  moreover have "(4::nat) dvd 100" by simp
  ultimately have "4 dvd n" by (rule dvd_trans [rotated])
  then show ?thesis by (simp only: dvd_eq_mod_eq_0)
qed

lemma cases4: "P \<or> (\<not> P \<and> Q) \<or> (\<not> Q \<and> R) \<or> \<not> R"
  by blast

lemma days_before_year_Suc:
  "days_before_year (Suc (Suc n))
     = days_before_year (Suc n) + (if is_leap (Suc n) then 366 else 365)"
proof -
  define a b c where "a = n div 4" and "b = n div 400" and "c = n div 100"
  have le: "c \<le> a" unfolding a_def c_def by (rule div_le_mono2) simp_all
  have e: "Suc n div 4 = (if Suc n mod 4 = 0 then Suc a else a)"
    "Suc n div 400 = (if Suc n mod 400 = 0 then Suc b else b)"
    "Suc n div 100 = (if Suc n mod 100 = 0 then Suc c else c)"
    unfolding a_def b_def c_def by (simp_all only: div_Suc)
  have d: "days_before_year (Suc (Suc n)) = Suc n * 365 + Suc n div 4 + Suc n div 400 - Suc n div 100"
    "days_before_year (Suc n) = n * 365 + a + b - c"
    unfolding a_def b_def c_def by (simp_all add: days_before_year_def)
  have "Suc n mod 400 = 0 \<or> (Suc n mod 400 \<noteq> 0 \<and> Suc n mod 100 = 0)
      \<or> (Suc n mod 100 \<noteq> 0 \<and> Suc n mod 4 = 0) \<or> Suc n mod 4 \<noteq> 0"
    by (rule cases4)
  then consider (A) "Suc n mod 400 = 0" | (B) "Suc n mod 400 \<noteq> 0" "Suc n mod 100 = 0"
    | (C) "Suc n mod 100 \<noteq> 0" "Suc n mod 4 = 0" | (D) "Suc n mod 4 \<noteq> 0"
    by (elim disjE conjE)
  then show ?thesis
  proof cases
    case A
    from A have m: "Suc n mod 100 = 0" by (rule mod_400_100)
    then have m4: "Suc n mod 4 = 0" by (rule mod_100_4)
    have l: "is_leap (Suc n)" by (simp only: is_leap_def A m4 simp_thms)
    show ?thesis using le by (simp only: d e A m m4 l if_True) simp
  next
    case B
    from B(2) have m4: "Suc n mod 4 = 0" by (rule mod_100_4)
    have l: "\<not> is_leap (Suc n)" by (simp only: is_leap_def B m4 simp_thms)
    show ?thesis using le by (simp only: d e B m4 l if_True if_False) simp
  next
    case C
    have m400: "Suc n mod 400 \<noteq> 0"
    proof
      assume "Suc n mod 400 = 0"
      then have "Suc n mod 100 = 0" by (rule mod_400_100)
      with C(1) show False by (rule notE)
    qed
    have l: "is_leap (Suc n)" by (simp only: is_leap_def C m400 simp_thms)
    show ?thesis using le by (simp only: d e C m400 l if_True if_False) simp
  next
    case D
    have m100: "Suc n mod 100 \<noteq> 0"
    proof
      assume "Suc n mod 100 = 0"
      then have "Suc n mod 4 = 0" by (rule mod_100_4)
      with D show False by (rule notE)
    qed
    have m400: "Suc n mod 400 \<noteq> 0"
    proof
      assume "Suc n mod 400 = 0"
      then have "Suc n mod 100 = 0" by (rule mod_400_100)
      with m100 show False by (rule notE)
    qed
    have l: "\<not> is_leap (Suc n)" by (simp only: is_leap_def D simp_thms)
    show ?thesis using le by (simp only: d e D m100 m400 l if_True if_False) simp
  qed
qed

lemma days_before_month_Suc:
  "1 \<le> m \<Longrightarrow> days_before_month y (Suc m) = days_before_month y m + days_in_month y m"
  by (simp add: days_before_month_def)

lemma days_before_month_12:
  "days_before_month y 12 = (if is_leap y then 335 else 334)"
proof -
  have u: "[1..<12] = [1, 2, 3, 4, 5, 6, 7, 8, 9, 10, 11::nat]"
    by (simp add: upt_rec)
  show ?thesis unfolding days_before_month_def u by (simp add: days_in_month_def)
qed

lemma days_before_month_1: "days_before_month y (Suc 0) = 0"
  by (simp add: days_before_month_def)

lemma toordinal_next_day: "toordinal (u\<lparr>day := day u + 1\<rparr>) = toordinal u + 1"
  by (simp add: toordinal_def)

lemma toordinal_next_month:
  assumes "1 \<le> month v" and "day v = days_in_month (year v) (month v)"
  shows "toordinal (v\<lparr>month := month v + 1, day := 1\<rparr>) = toordinal v + 1"
  using assms(2) by (simp add: toordinal_def days_before_month_Suc [OF assms(1)])

lemma toordinal_next_year:
  assumes "1 \<le> year w" and "month w = 12" and "day w = 31"
  shows "toordinal (w\<lparr>year := year w + 1, month := 1, day := 1\<rparr>) = toordinal w + 1"
proof -
  from assms(1) obtain n where n: "year w = Suc n" by (cases "year w") simp_all
  show ?thesis
    unfolding toordinal_def
    by (simp add: n assms(2,3) days_before_year_Suc days_before_month_12 days_before_month_1)
qed

lemma weekday_next:
  "toordinal u' = toordinal u + 1 \<Longrightarrow> weekday u' = (weekday u + 1) mod 7"
  by (simp add: weekday_def mod_Suc_eq)

lemma weekday_first: "weekday (mk_datetime 1 1 1 H M) = 0"
  by (simp add: mk_datetime_def weekday_def toordinal_def days_before_year_def
        days_before_month_def)




lemma strftime_strptime_any:
  assumes "strptime s = Some t"
  shows "strftime t
           = decimal (year t) @ drop 4 (take 11 s) @ day_abbr (weekday t) @ drop 14 s"
proof -
  from strptime_shape [OF assms(1)] have m: "re_match timestamp_group s" and len: "length s = 20"
    by simp_all
  from len have l11: "length (take 11 s) = 11" and l9: "length (drop 11 s) = 9" by simp_all
  from length_11 [OF l11] obtain x0 x1 x2 x3 x4 x5 x6 x7 x8 x9 x10
    where tk: "take 11 s = [x0, x1, x2, x3, x4, x5, x6, x7, x8, x9, x10]" by blast
  from length_9 [OF l9] obtain a b c y0 y1 y2 y3 y4 y5
    where dr: "drop 11 s = [a, b, c, y0, y1, y2, y3, y4, y5]" by blast
  from tk dr have "take 11 s @ drop 11 s
      = [x0, x1, x2, x3, x4, x5, x6, x7, x8, x9, x10, a, b, c, y0, y1, y2, y3, y4, y5]"
    by simp
  then have s: "s = [x0, x1, x2, x3, x4, x5, x6, x7, x8, x9, x10, a, b, c, y0, y1, y2, y3, y4, y5]"
    by (simp only: append_take_drop_id)
  from m have dg: "is_digit x5" "is_digit x6" "is_digit x8" "is_digit x9" "is_digit y1"
    "is_digit y2" "is_digit y4" "is_digit y5"
    and lit: "x4 = CHR ''-''" "x7 = CHR ''-''" "x10 = CHR '' ''" "y0 = CHR '' ''" "y3 = CHR '':''"
    unfolding s by (simp_all add: timestamp_group_def)
  from assms(1) have t: "t = mk_datetime (int_of_digits [x0, x1, x2, x3]) (int_of_digits [x5, x6])
      (int_of_digits [x8, x9]) (int_of_digits [y1, y2]) (int_of_digits [y4, y5])"
    unfolding s by (simp add: strptime_def Let_def split: if_splits)
  then have f: "month t = int_of_digits [x5, x6]"
    "day t = int_of_digits [x8, x9]" "hour t = int_of_digits [y1, y2]"
    "minute t = int_of_digits [y4, y5]"
    by (simp_all add: mk_datetime_def)
  have "strftime t = decimal (year t) @ ''-'' @ [x5, x6] @ ''-'' @ [x8, x9] @ '' ''
      @ day_abbr (weekday t) @ '' '' @ [y1, y2] @ '':'' @ [y4, y5]"
    unfolding strftime_def f
    by (simp only: pad2_digits [OF dg(1,2)]
          pad2_digits [OF dg(3,4)] pad2_digits [OF dg(5,6)] pad2_digits [OF dg(7,8)])
  then show ?thesis unfolding s lit by simp
qed

lemma strptime_fields:
  assumes "strptime s = Some t"
  shows "t = mk_datetime (int_of_digits (take 4 s)) (int_of_digits (take 2 (drop 5 s)))
             (int_of_digits (take 2 (drop 8 s))) (int_of_digits (take 2 (drop 15 s)))
             (int_of_digits (take 2 (drop 18 s)))"
  using assms by (simp add: strptime_def Let_def split: if_splits)

text \<open>
  C9: two texts whose lines differ only in day-of-week tokens of timestamps, each token a
  weekday abbreviation, are parsed to the same tasks, in the BeOrg format and in the
  Journelly format. \<^verbatim>\<open>strptime\<close> gives the same value whatever weekday the token names:
  the value built from the digits of the year, month, day, hour and minute. Formatting that
  value writes the year, then the rest of the date as it was read, then the name of
  \<^verbatim>\<open>weekday()\<close> in the token's place, then the time as it was read; for a year of
  four digits this is the text that was read with only the token replaced. And
  \<^verbatim>\<open>weekday()\<close> is the day of the week of the date: Monday, 0, on 0001-01-01, the
  same at every time of a day, and one more, modulo 7, on the next day, be it in the same
  month, the first of the next month or the first of the next year.
\<close>

theorem weekday_token_ignored:
  assumes "list_all2 (same_but_weekday ''['') (split_nl (strip text1)) (split_nl (strip text2))"
    and "list_all2 (same_but_weekday ''* ['') (split_nl (strip jtext1)) (split_nl (strip jtext2))"
    and "is_weekday_name d1" and "is_weekday_name d2" and "length a = 11"
    and "strptime (a @ d1 @ b) = Some t"
  shows "fst (beorg_parse_tasks text1) = fst (beorg_parse_tasks text2)
       \<and> fst (journelly_parse_tasks jtext1) = fst (journelly_parse_tasks jtext2)
       \<and> strptime (a @ d2 @ b) = Some t
       \<and> t = mk_datetime (int_of_digits (take 4 a)) (int_of_digits (take 2 (drop 5 a)))
               (int_of_digits (take 2 (drop 8 a))) (int_of_digits (take 2 (drop 1 b)))
               (int_of_digits (take 2 (drop 4 b)))
       \<and> strftime t = decimal (year t) @ drop 4 a @ day_abbr (weekday t) @ b
       \<and> (1000 \<le> year t \<longrightarrow> strftime t = a @ day_abbr (weekday t) @ b)
       \<and> weekday (mk_datetime 1 1 1 H M) = 0
       \<and> weekday (u\<lparr>hour := H', minute := M', second := S', microsecond := U'\<rparr>) = weekday u
       \<and> (day u < days_in_month (year u) (month u) \<longrightarrow>
            weekday (u\<lparr>day := day u + 1\<rparr>) = (weekday u + 1) mod 7)
       \<and> (1 \<le> month v \<and> month v < 12 \<and> day v = days_in_month (year v) (month v) \<longrightarrow>
            weekday (v\<lparr>month := month v + 1, day := 1\<rparr>) = (weekday v + 1) mod 7)
       \<and> (1 \<le> year w \<and> month w = 12 \<and> day w = 31 \<longrightarrow>
            weekday (w\<lparr>year := year w + 1, month := 1, day := 1\<rparr>) = (weekday w + 1) mod 7)"
proof -
  have p: "fst (beorg_parse_tasks text1) = fst (beorg_parse_tasks text2)"
    unfolding beorg_parse_tasks_def using assms(1) by (rule beorg_loop_same)
  have q: "fst (journelly_parse_tasks jtext1) = fst (journelly_parse_tasks jtext2)"
    unfolding journelly_parse_tasks_def using assms(2) by (rule journelly_loop_same)
  from weekday_name_shape [OF assms(3)] have l1: "length d1 = 3" by simp
  from weekday_name_shape [OF assms(4)] have l2: "length d2 = 3" by simp
  from strptime_shape [OF assms(6)] have "length (a @ d1 @ b) = 20" by simp
  with l1 l2 assms(5) have lb: "length b = 6" and len2: "length (a @ d2 @ b) = 20" by simp_all
  from assms(5) l1 lb have t1: "take 20 (a @ d1 @ b) = a @ d1 @ b" by simp
  from len2 have t2: "take 20 (a @ d2 @ b) = a @ d2 @ b" by simp
  from strptime_weekday [OF assms(5) assms(3) assms(4), of b] assms(6)
  have r: "strptime (a @ d2 @ b) = Some t" by (simp only: t1 t2)
  from assms(5) l1 have td: "take 11 (a @ d1 @ b) = a" "drop 14 (a @ d1 @ b) = b" by simp_all
  from assms(5) l1 have fl: "take 4 (a @ d1 @ b) = take 4 a"
    "take 2 (drop 5 (a @ d1 @ b)) = take 2 (drop 5 a)"
    "take 2 (drop 8 (a @ d1 @ b)) = take 2 (drop 8 a)"
    "take 2 (drop 15 (a @ d1 @ b)) = take 2 (drop 1 b)"
    "take 2 (drop 18 (a @ d1 @ b)) = take 2 (drop 4 b)"
    by simp_all
  from strptime_fields [OF assms(6)]
  have f: "t = mk_datetime (int_of_digits (take 4 a)) (int_of_digits (take 2 (drop 5 a)))
               (int_of_digits (take 2 (drop 8 a))) (int_of_digits (take 2 (drop 1 b)))
               (int_of_digits (take 2 (drop 4 b)))"
    by (simp only: fl)
  from strftime_strptime_any [OF assms(6)]
  have s: "strftime t = decimal (year t) @ drop 4 a @ day_abbr (weekday t) @ b"
    by (simp only: td)
  have s': "1000 \<le> year t \<longrightarrow> strftime t = a @ day_abbr (weekday t) @ b"
  proof
    assume "1000 \<le> year t"
    with assms(6) have "strftime t = take 11 (a @ d1 @ b) @ day_abbr (weekday t)
        @ drop 14 (a @ d1 @ b)"
      by (rule strftime_strptime)
    then show "strftime t = a @ day_abbr (weekday t) @ b" by (simp only: td)
  qed
  have w0: "weekday (mk_datetime 1 1 1 H M) = 0" by (rule weekday_first)
  have wt: "weekday (u\<lparr>hour := H', minute := M', second := S', microsecond := U'\<rparr>)
      = weekday u"
    by (simp add: weekday_def toordinal_def)
  have wd: "day u < days_in_month (year u) (month u) \<longrightarrow>
            weekday (u\<lparr>day := day u + 1\<rparr>) = (weekday u + 1) mod 7"
    using weekday_next [OF toordinal_next_day] by blast
  have wm: "1 \<le> month v \<and> month v < 12 \<and> day v = days_in_month (year v) (month v) \<longrightarrow>
            weekday (v\<lparr>month := month v + 1, day := 1\<rparr>) = (weekday v + 1) mod 7"
    using weekday_next [OF toordinal_next_month] by blast
  have wy: "1 \<le> year w \<and> month w = 12 \<and> day w = 31 \<longrightarrow>
            weekday (w\<lparr>year := year w + 1, month := 1, day := 1\<rparr>) = (weekday w + 1) mod 7"
    using weekday_next [OF toordinal_next_year] by blast
  from p q r f s s' w0 wt wd wm wy show ?thesis by (simp only: simp_thms)
qed


text \<open>
  C9 at an inbox text and a journal text of a Saturday, each with its weekday token changed
  and the tokens \<^verbatim>\<open>Mon\<close>, \<^verbatim>\<open>fri\<close> and \<^verbatim>\<open>SUN\<close> not that of the date; and the
  next day at 2024-02-10, at the leap day 2024-02-29 and at 2023-12-31.
\<close>

theorem weekday_token_ignored_witness:
  "list_all2 (same_but_weekday ''['')
     (split_nl (strip (join_nl [''* TODO Water plants'', ''  [2024-02-10 Mon 09:00]''])))
     (split_nl (strip (join_nl [''* TODO Water plants'', ''  [2024-02-10 fri 09:00]''])))
   \<and> list_all2 (same_but_weekday ''* ['')
     (split_nl (strip (join_nl [''* [2024-02-10 Sat 09:00] @ -'', ''- [X] Water plants''])))
     (split_nl (strip (join_nl [''* [2024-02-10 SUN 09:00] @ -'', ''- [X] Water plants''])))
   \<and> is_weekday_name ''Mon'' \<and> is_weekday_name ''fri''
   \<and> strptime (''2024-02-10 '' @ ''Mon'' @ '' 09:00'') = Some (mk_datetime 2024 2 10 9 0)
   \<and> strptime (''2024-02-10 '' @ ''fri'' @ '' 09:00'') = Some (mk_datetime 2024 2 10 9 0)
   \<and> fst (beorg_parse_tasks (join_nl [''* TODO Water plants'', ''  [2024-02-10 Mon 09:00]'']))
       = [\<lparr>content = ''Water plants'', timestamp = mk_datetime 2024 2 10 9 0,
            is_completed = False\<rparr>]
   \<and> fst (beorg_parse_tasks (join_nl [''* TODO Water plants'', ''  [2024-02-10 fri 09:00]'']))
       = [\<lparr>content = ''Water plants'', timestamp = mk_datetime 2024 2 10 9 0,
            is_completed = False\<rparr>]
   \<and> fst (journelly_parse_tasks
              (join_nl [''* [2024-02-10 Sat 09:00] @ -'', ''- [X] Water plants'']))
       = [\<lparr>content = ''Water plants'', timestamp = mk_datetime 2024 2 10 9 0,
            is_completed = True\<rparr>]
   \<and> fst (journelly_parse_tasks
              (join_nl [''* [2024-02-10 SUN 09:00] @ -'', ''- [X] Water plants'']))
       = [\<lparr>content = ''Water plants'', timestamp = mk_datetime 2024 2 10 9 0,
            is_completed = True\<rparr>]
   \<and> strftime (mk_datetime 2024 2 10 9 0) = ''2024-02-10 Sat 09:00''
   \<and> weekday (mk_datetime 2024 2 10 9 0) = 5
   \<and> weekday (mk_datetime 2024 2 11 9 0) = 6
   \<and> weekday (mk_datetime 2024 2 29 0 0) = 3
   \<and> weekday (mk_datetime 2024 3 1 0 0) = 4
   \<and> weekday (mk_datetime 2023 12 31 23 59) = 6
   \<and> weekday (mk_datetime 2024 1 1 23 59) = 0"
proof -
  have h1: "list_all2 (same_but_weekday ''['')
     (split_nl (strip (join_nl [''* TODO Water plants'', ''  [2024-02-10 Mon 09:00]''])))
     (split_nl (strip (join_nl [''* TODO Water plants'', ''  [2024-02-10 fri 09:00]''])))"
    by code_simp
  have h2: "list_all2 (same_but_weekday ''* ['')
     (split_nl (strip (join_nl [''* [2024-02-10 Sat 09:00] @ -'', ''- [X] Water plants''])))
     (split_nl (strip (join_nl [''* [2024-02-10 SUN 09:00] @ -'', ''- [X] Water plants''])))"
    by code_simp
  have h3: "is_weekday_name ''Mon''" by code_simp
  have h4: "is_weekday_name ''fri''" by code_simp
  have h5: "length ''2024-02-10 '' = 11" by simp
  have h6: "strptime (''2024-02-10 '' @ ''Mon'' @ '' 09:00'') = Some (mk_datetime 2024 2 10 9 0)"
    by code_simp
  have b: "fst (beorg_parse_tasks (join_nl [''* TODO Water plants'', ''  [2024-02-10 Mon 09:00]'']))
       = [\<lparr>content = ''Water plants'', timestamp = mk_datetime 2024 2 10 9 0,
            is_completed = False\<rparr>]"
    by code_simp
  have j: "fst (journelly_parse_tasks
              (join_nl [''* [2024-02-10 Sat 09:00] @ -'', ''- [X] Water plants'']))
       = [\<lparr>content = ''Water plants'', timestamp = mk_datetime 2024 2 10 9 0,
            is_completed = True\<rparr>]"
    by code_simp
  have w: "weekday (mk_datetime 2024 2 10 9 0) = 5" "weekday (mk_datetime 2024 2 29 0 0) = 3"
    "weekday (mk_datetime 2023 12 31 23 59) = 6"
    unfolding mk_datetime_def
    by (simp_all add: weekday_def toordinal_def days_before_year_def days_before_month_def
          days_in_month_def is_leap_def upt_rec)
  have da: "day_abbr 5 = ''Sat''" by (simp add: day_abbr_def)
  have dm: "days_in_month 2024 2 = 29" by (simp add: days_in_month_def is_leap_def)
  have u: "(mk_datetime 2024 2 10 9 0)\<lparr>day := day (mk_datetime 2024 2 10 9 0) + 1\<rparr>
             = mk_datetime 2024 2 11 9 0"
    "(mk_datetime 2024 2 29 0 0)\<lparr>month := month (mk_datetime 2024 2 29 0 0) + 1, day := 1\<rparr>
             = mk_datetime 2024 3 1 0 0"
    "(mk_datetime 2023 12 31 23 59)\<lparr>year := year (mk_datetime 2023 12 31 23 59) + 1,
         month := 1, day := 1\<rparr> = mk_datetime 2024 1 1 23 59"
    by (simp_all add: mk_datetime_def)
  have f: "year (mk_datetime 2024 2 10 9 0) = 2024" "month (mk_datetime 2024 2 10 9 0) = 2"
    "day (mk_datetime 2024 2 10 9 0) = 10"
    "year (mk_datetime 2024 2 29 0 0) = 2024" "month (mk_datetime 2024 2 29 0 0) = 2"
    "day (mk_datetime 2024 2 29 0 0) = 29"
    "year (mk_datetime 2023 12 31 23 59) = 2023" "month (mk_datetime 2023 12 31 23 59) = 12"
    "day (mk_datetime 2023 12 31 23 59) = 31"
    by (simp_all add: mk_datetime_def)
  note t = weekday_token_ignored [OF h1 h2 h3 h4 h5 h6,
      where u = "mk_datetime 2024 2 10 9 0" and v = "mk_datetime 2024 2 29 0 0"
        and w = "mk_datetime 2023 12 31 23 59"]
  note t3 = t [THEN conjunct2, THEN conjunct2]
  note t6 = t3 [THEN conjunct2, THEN conjunct2, THEN conjunct2]
  note t9 = t6 [THEN conjunct2, THEN conjunct2, THEN conjunct2]
  have b2: "fst (beorg_parse_tasks (join_nl [''* TODO Water plants'', ''  [2024-02-10 fri 09:00]'']))
       = [\<lparr>content = ''Water plants'', timestamp = mk_datetime 2024 2 10 9 0,
            is_completed = False\<rparr>]"
    using t [THEN conjunct1, symmetric] b by (rule trans)
  have j2: "fst (journelly_parse_tasks
              (join_nl [''* [2024-02-10 SUN 09:00] @ -'', ''- [X] Water plants'']))
       = [\<lparr>content = ''Water plants'', timestamp = mk_datetime 2024 2 10 9 0,
            is_completed = True\<rparr>]"
    using t [THEN conjunct2, THEN conjunct1, symmetric] j by (rule trans)
  have r: "strptime (''2024-02-10 '' @ ''fri'' @ '' 09:00'') = Some (mk_datetime 2024 2 10 9 0)"
    by (rule t3 [THEN conjunct1])
  have y: "1000 \<le> year (mk_datetime 2024 2 10 9 0)" by (simp add: f)
  from t6 [THEN conjunct1] y
  have "strftime (mk_datetime 2024 2 10 9 0)
          = ''2024-02-10 '' @ day_abbr (weekday (mk_datetime 2024 2 10 9 0)) @ '' 09:00''"
    by (rule mp)
  then have s: "strftime (mk_datetime 2024 2 10 9 0) = ''2024-02-10 Sat 09:00''"
    by (simp add: w da)
  have "day (mk_datetime 2024 2 10 9 0)
          < days_in_month (year (mk_datetime 2024 2 10 9 0)) (month (mk_datetime 2024 2 10 9 0))"
    by (simp add: f dm)
  with t9 [THEN conjunct1]
  have "weekday ((mk_datetime 2024 2 10 9 0)\<lparr>day := day (mk_datetime 2024 2 10 9 0) + 1\<rparr>)
          = (weekday (mk_datetime 2024 2 10 9 0) + 1) mod 7"
    by (rule mp)
  then have w1: "weekday (mk_datetime 2024 2 11 9 0) = 6" by (simp only: u w) simp
  have "1 \<le> month (mk_datetime 2024 2 29 0 0) \<and> month (mk_datetime 2024 2 29 0 0) < 12
      \<and> day (mk_datetime 2024 2 29 0 0)
          = days_in_month (year (mk_datetime 2024 2 29 0 0)) (month (mk_datetime 2024 2 29 0 0))"
    by (simp add: f dm)
  with t9 [THEN conjunct2, THEN conjunct1]
  have "weekday ((mk_datetime 2024 2 29 0 0)\<lparr>month := month (mk_datetime 2024 2 29 0 0) + 1,
            day := 1\<rparr>)
          = (weekday (mk_datetime 2024 2 29 0 0) + 1) mod 7"
    by (rule mp)
  then have w2: "weekday (mk_datetime 2024 3 1 0 0) = 4" by (simp only: u w) simp
  have "1 \<le> year (mk_datetime 2023 12 31 23 59) \<and> month (mk_datetime 2023 12 31 23 59) = 12
      \<and> day (mk_datetime 2023 12 31 23 59) = 31"
    by (simp add: f)
  with t9 [THEN conjunct2, THEN conjunct2]
  have "weekday ((mk_datetime 2023 12 31 23 59)\<lparr>year := year (mk_datetime 2023 12 31 23 59) + 1,
            month := 1, day := 1\<rparr>)
          = (weekday (mk_datetime 2023 12 31 23 59) + 1) mod 7"
    by (rule mp)
  then have w3: "weekday (mk_datetime 2024 1 1 23 59) = 0" by (simp only: u w) simp
  show ?thesis
    by (intro conjI) (rule h1 h2 h3 h4 h6 r b b2 j j2 s w w1 w2 w3)+
qed

end
